theory Spec2Isabelle
  imports
    Complex_Main
    "HOL-Library.Char_ord"
    "HOL-Library.List_Lexorder"
    "HOL-Library.Sublist"
    "HOL-Library.Signed_Division"
begin

section \<open>Keys, table files, versions\<close>

text \<open>
  The leveled compaction engine of the vendored goleveldb:
  \<^verbatim>\<open>leveldb/session_compaction.go\<close> (picker and input-set builder) and
  \<^verbatim>\<open>leveldb/db_compaction.go\<close> (executor and retry wrapper).

  User keys are byte strings, compared bytewise (the default comparer): \<open>string\<close>
  with the lexicographic order on characters.
\<close>

type_synonym bytes = string

datatype error =
  ErrCorrupted          \<comment> \<open>\<^verbatim>\<open>errors.IsCorrupted(err)\<close> holds\<close>
  | ErrIO               \<comment> \<open>any other (transient) error\<close>
  | ErrNotExist         \<comment> \<open>\<^verbatim>\<open>os.ErrNotExist\<close> of the storage\<close>
  | PanicIndexOutOfRange
  | PanicInvalidKey     \<comment> \<open>\<^verbatim>\<open>ukey()\<close> of a nil internal key\<close>
  | ErrTransactExiting  \<comment> \<open>the panic value \<^verbatim>\<open>errCompactionTransactExiting\<close>\<close>

definition IsCorrupted :: "error \<Rightarrow> bool" where
  "IsCorrupted e = (e = ErrCorrupted)"

text \<open>The values that leave a function by \<^verbatim>\<open>panic\<close>, not as a returned error.\<close>

definition isPanic :: "error \<Rightarrow> bool" where
  "isPanic e = (e = PanicIndexOutOfRange \<or> e = PanicInvalidKey \<or> e = ErrTransactExiting)"

datatype keyType = keyTypeDel | keyTypeVal

text \<open>
  Modelled from the spec: the internal-key codec (\<^verbatim>\<open>key.go\<close> is not among the
  sources). An internal key is an encoded (user key, sequence number, operation kind)
  tuple: the user key followed by a trailer number \<open>seq * 256 + kind\<close>, kind byte 0
  for a delete-marker and 1 for a put. Decoding fails on any other kind byte.
\<close>

datatype internalKey = InternalKey (ukey: bytes) (trailer: nat)

definition keyMaxSeq :: nat where
  "keyMaxSeq = 2 ^ 56 - 1"

definition makeInternalKey :: "bytes \<Rightarrow> nat \<Rightarrow> keyType \<Rightarrow> internalKey" where
  "makeInternalKey u sq kt = InternalKey u (sq * 256 + (case kt of keyTypeDel \<Rightarrow> 0 | keyTypeVal \<Rightarrow> 1))"

definition parseInternalKey :: "internalKey \<Rightarrow> error + (bytes \<times> nat \<times> keyType)" where
  "parseInternalKey ik =
     (let num = trailer ik; sq = num div 256; kt = num mod 256
      in if kt > 1 then Inl ErrCorrupted
         else Inr (ukey ik, sq, if kt = 0 then keyTypeDel else keyTypeVal))"

text \<open>
  Modelled from the spec: the comparers \<^verbatim>\<open>icmp.uCompare\<close> (user keys) and
  \<^verbatim>\<open>icmp.Compare\<close> (internal keys: user key ascending, then trailer descending,
  so that the newest entry of a user key comes first).
\<close>

definition uCompare :: "bytes \<Rightarrow> bytes \<Rightarrow> int" where
  "uCompare a b = (if a < b then - 1 else if a = b then 0 else 1)"

definition iCompare :: "internalKey \<Rightarrow> internalKey \<Rightarrow> int" where
  "iCompare a b =
     (let x = uCompare (ukey a) (ukey b)
      in if x = 0
         then (if trailer a > trailer b then - 1 else if trailer a < trailer b then 1 else 0)
         else x)"

text \<open>\<^verbatim>\<open>tFile\<close>: file number, byte size, smallest and largest internal key.\<close>

record tFile =
  fd_num :: nat
  fsize :: int
  imin :: internalKey
  imax :: internalKey

text \<open>\<^verbatim>\<open>tSet\<close>, the cached most-sought table of a version.\<close>

record tSet =
  ts_level :: nat
  ts_table :: tFile

record version =
  levels :: "tFile list list"
  cScore :: real
  cLevel :: nat
  cSeek :: "tSet option"

text \<open>
  The options the compaction code reads (\<^verbatim>\<open>s.o.Get...\<close>), the compaction pointers
  of the session, and the keys stored in each table file (what an iterator over the
  table yields, or the error it ends in).
\<close>

record options =
  overflowPrefix :: bytes
  compactionGPOverlaps :: "nat \<Rightarrow> int"
  compactionExpandLimit :: "nat \<Rightarrow> int"
  compactionSourceLimit :: "nat \<Rightarrow> int"
  compactionTableSize :: "nat \<Rightarrow> int"
  strictCompaction :: bool
  blockSize :: int
  disableCompactionBackoff :: bool

record session =
  opts :: options
  getCompPtr :: "nat \<Rightarrow> internalKey option"
  tops :: "nat \<Rightarrow> error + internalKey list"

datatype compactionType =
  undefinedCompaction | level0Compaction | nonLevel0Compaction | seekCompaction

text \<open>
  The \<^verbatim>\<open>compaction\<close> struct. \<^verbatim>\<open>levels [2]tFiles\<close> is the pair
  \<open>levels0\<close>, \<open>levels1\<close>; the fields \<^verbatim>\<open>s\<close>, \<^verbatim>\<open>v\<close>, \<^verbatim>\<open>typ\<close>,
  \<^verbatim>\<open>imin\<close>, \<^verbatim>\<open>imax\<close> carry the prefix \<open>c_\<close>.
\<close>

record compaction =
  c_s :: session
  c_v :: version
  c_typ :: compactionType
  sourceLevel :: nat
  levels0 :: "tFile list"
  levels1 :: "tFile list"
  maxGPOverlaps :: int
  skips :: "tFile list"
  skipIndex :: nat
  gp :: "tFile list"
  gpi :: nat
  seenKey :: bool
  gpOverlappedBytes :: int
  c_imin :: "internalKey option"
  c_imax :: "internalKey option"
  tPtrs :: "nat list"
  released :: bool
  snapGPI :: nat
  snapSeenKey :: bool
  snapGPOverlappedBytes :: int
  snapTPtrs :: "nat list"
  snapSkipIndex :: nat
  overflowed :: bool

section \<open>Table-list helpers\<close>

text \<open>\<^verbatim>\<open>tFiles.size()\<close>: the sum of the byte sizes.\<close>

definition tFiles_size :: "tFile list \<Rightarrow> int" where
  "tFiles_size tf = sum_list (map fsize tf)"

text \<open>
  Modelled from the spec: \<^verbatim>\<open>tFiles.getRange\<close> (\<^verbatim>\<open>table.go\<close> is not among the
  sources), the key range a group of files covers: the smallest \<open>imin\<close> and the largest
  \<open>imax\<close> under the internal comparer; nil keys (here \<open>None\<close>) for an empty group.
\<close>

fun getRange_loop :: "internalKey \<Rightarrow> internalKey \<Rightarrow> tFile list \<Rightarrow> internalKey \<times> internalKey" where
  "getRange_loop lo hi [] = (lo, hi)"
| "getRange_loop lo hi (t # ts) =
     getRange_loop (if iCompare (imin t) lo < 0 then imin t else lo)
                   (if iCompare (imax t) hi > 0 then imax t else hi) ts"

definition getRange :: "tFile list \<Rightarrow> (internalKey \<times> internalKey) option" where
  "getRange tf = (case tf of [] \<Rightarrow> None | t # ts \<Rightarrow> Some (getRange_loop (imin t) (imax t) ts))"

text \<open>
  Modelled from the spec: \<^verbatim>\<open>tFile.overlaps\<close> and \<^verbatim>\<open>tFiles.getOverlaps\<close>
  (\<^verbatim>\<open>table.go\<close>): the files of a level whose user-key range meets the range
  \<open>[umin, umax]\<close>, in the order of the level. The destination slice and the
  \<open>overlapped\<close> flag of the call are kept as arguments.
\<close>

definition overlaps :: "tFile \<Rightarrow> bytes \<Rightarrow> bytes \<Rightarrow> bool" where
  "overlaps t umin umax =
     (\<not> uCompare umin (ukey (imax t)) > 0 \<and> \<not> uCompare umax (ukey (imin t)) < 0)"

definition getOverlaps :: "tFile list \<Rightarrow> tFile list \<Rightarrow> bytes \<Rightarrow> bytes \<Rightarrow> bool \<Rightarrow> tFile list" where
  "getOverlaps tf dst umin umax overlapped = filter (\<lambda>t. overlaps t umin umax) tf"

section \<open>The input-set builder\<close>

subsection \<open>save and restore\<close>

definition save :: "compaction \<Rightarrow> compaction" where
  "save c = c\<lparr> snapGPI := gpi c,
              snapSeenKey := seenKey c,
              snapGPOverlappedBytes := gpOverlappedBytes c,
              snapTPtrs := tPtrs c,
              snapSkipIndex := skipIndex c \<rparr>"

definition restore :: "compaction \<Rightarrow> compaction" where
  "restore c = c\<lparr> gpi := snapGPI c,
                 seenKey := snapSeenKey c,
                 gpOverlappedBytes := snapGPOverlappedBytes c,
                 tPtrs := snapTPtrs c,
                 skipIndex := snapSkipIndex c \<rparr>"

subsection \<open>expand\<close>

text \<open>
  Steps (a) and (b) of \<^verbatim>\<open>expand\<close>: the source group \<open>t0\<close> (for level 0 with the
  overlapping level-0 files absorbed), its range, and the overlapping group \<open>t1\<close> of
  the next level. \<^verbatim>\<open>imin.ukey()\<close> panics on the nil key of an empty group.
\<close>

definition expand_inputs ::
  "compaction \<Rightarrow> tFile list \<Rightarrow> tFile list
     \<Rightarrow> error + (tFile list \<times> tFile list \<times> internalKey \<times> internalKey)" where
  "expand_inputs c vt0 vt1 =
     (case getRange (levels0 c) of
        None \<Rightarrow> Inl PanicInvalidKey
      | Some (imin0, imax0) \<Rightarrow>
          let t0 = (if sourceLevel c = 0
                    then getOverlaps vt0 (levels0 c) (ukey imin0) (ukey imax0) (sourceLevel c = 0)
                    else levels0 c);
              r = (if sourceLevel c = 0 \<and> length t0 \<noteq> length (levels0 c)
                   then getRange t0 else Some (imin0, imax0))
          in (case r of
                None \<Rightarrow> Inl PanicInvalidKey
              | Some (imin1, imax1) \<Rightarrow>
                  Inr (t0, getOverlaps vt1 (levels1 c) (ukey imin1) (ukey imax1) False,
                       imin1, imax1)))"

text \<open>
  Step (c): the attempt to grow the source group. \<open>Some (exp0, exp1, xmin, xmax)\<close> when
  the growth is accepted, \<open>None\<close> when the groups stay as they are.
\<close>

definition expand_grow ::
  "compaction \<Rightarrow> tFile list \<Rightarrow> tFile list \<Rightarrow> tFile list \<Rightarrow> tFile list
     \<Rightarrow> internalKey \<Rightarrow> internalKey
     \<Rightarrow> (tFile list \<times> tFile list \<times> internalKey \<times> internalKey) option" where
  "expand_grow c vt0 vt1 t0 t1 amin amax =
     (let limit = compactionExpandLimit (opts (c_s c)) (sourceLevel c)
      in if length t1 > 0
         then let exp0 = getOverlaps vt0 [] (ukey amin) (ukey amax) (sourceLevel c = 0)
              in if length exp0 > length t0 \<and> tFiles_size t1 + tFiles_size exp0 < limit
                 then (case getRange exp0 of
                         None \<Rightarrow> None
                       | Some (xmin, xmax) \<Rightarrow>
                           let exp1 = getOverlaps vt1 [] (ukey xmin) (ukey xmax) False
                           in if length exp1 = length t1
                              then Some (exp0, exp1, xmin, xmax) else None)
                 else None
         else None)"

definition expand :: "compaction \<Rightarrow> error + compaction" where
  "expand c =
     (let lv = levels (c_v c); sl = sourceLevel c
      in if \<not> sl < length lv then Inl PanicIndexOutOfRange
         else
           let vt0 = lv ! sl;
               vt1 = (if sl + 1 < length lv then lv ! (sl + 1) else [])
           in case expand_inputs c vt0 vt1 of
                Inl e \<Rightarrow> Inl e
              | Inr (t0, t1, imin1, imax1) \<Rightarrow>
                  (case getRange (t0 @ t1) of
                     None \<Rightarrow> Inl PanicInvalidKey
                   | Some (amin, amax) \<Rightarrow>
                       let (t0', t1', imin', imax') =
                             (case expand_grow c vt0 vt1 t0 t1 amin amax of
                                Some g \<Rightarrow> g
                              | None \<Rightarrow> (t0, t1, imin1, imax1))
                       in (case getRange (t0' @ t1') of
                             None \<Rightarrow> Inl PanicInvalidKey
                           | Some (amin', amax') \<Rightarrow>
                               Inr (c\<lparr> gp := (if sl + 2 < length lv
                                               then getOverlaps (lv ! (sl + 2)) (gp c)
                                                      (ukey amin') (ukey amax') False
                                               else gp c),
                                        levels0 := t0',
                                        levels1 := t1',
                                        c_imin := Some imin',
                                        c_imax := Some imax' \<rparr>))))"

subsection \<open>trivial\<close>

definition trivial :: "compaction \<Rightarrow> bool" where
  "trivial c =
     (length (levels0 c) = 1 \<and> length (levels1 c) = 0 \<and> tFiles_size (gp c) \<le> maxGPOverlaps c)"

subsection \<open>reduce\<close>

text \<open>
  Modelled from the spec: the source-level iterator of \<^verbatim>\<open>reduce\<close> (the
  \<^verbatim>\<open>iterator\<close> package and the table reader are not among the sources). Each table
  yields its keys in order, or fails; the iterator over the source group yields the
  keys of its tables merged by the internal comparer for level 0, and chained in the
  order of the group for a deeper level. \<^verbatim>\<open>Seek(k)\<close> moves to the first key that is
  not below \<open>k\<close> and reports whether there is one; \<^verbatim>\<open>Prev()\<close> moves one key back
  and reports whether there is one.
\<close>

fun mergeKeys :: "internalKey list \<Rightarrow> internalKey list \<Rightarrow> internalKey list" where
  "mergeKeys [] ys = ys"
| "mergeKeys xs [] = xs"
| "mergeKeys (x # xs) (y # ys) =
     (if iCompare x y \<le> 0 then x # mergeKeys xs (y # ys) else y # mergeKeys (x # xs) ys)"

fun tableKeys :: "session \<Rightarrow> tFile list \<Rightarrow> error + internalKey list list" where
  "tableKeys s [] = Inr []"
| "tableKeys s (t # ts) =
     (case tops s (fd_num t) of
        Inl e \<Rightarrow> Inl e
      | Inr ks \<Rightarrow> (case tableKeys s ts of Inl e \<Rightarrow> Inl e | Inr kss \<Rightarrow> Inr (ks # kss)))"

definition sourceIterator :: "compaction \<Rightarrow> error + internalKey list" where
  "sourceIterator c =
     (case tableKeys (c_s c) (levels0 c) of
        Inl e \<Rightarrow> Inl e
      | Inr kss \<Rightarrow> Inr (if sourceLevel c = 0 then foldr mergeKeys kss [] else concat kss))"

definition it_Seek :: "internalKey list \<Rightarrow> internalKey \<Rightarrow> nat" where
  "it_Seek ks k = length (takeWhile (\<lambda>x. iCompare x k < 0) ks)"

text \<open>
  The body of the loop of \<^verbatim>\<open>reduce\<close> for the table \<open>t\<close> at index \<open>i\<close> of a target
  group of \<open>n\<close> tables: whether \<open>t\<close> goes to the skip list.
\<close>

definition reduce_skip :: "internalKey list \<Rightarrow> int \<Rightarrow> nat \<Rightarrow> nat \<Rightarrow> tFile \<Rightarrow> bool" where
  "reduce_skip ks targetTableSize n i t =
     (let ignore = (i = 0 \<or> int i = int n - 1 \<or> fsize t < targetTableSize sdiv 10);
          p = it_Seek ks (imin t)
      in \<not> ignore \<and> p < length ks
         \<and> uCompare (ukey (ks ! p)) (ukey (imax t)) > 0
         \<and> p > 0
         \<and> uCompare (ukey (ks ! (p - 1))) (ukey (imin t)) < 0)"

fun reduce_loop ::
  "internalKey list \<Rightarrow> int \<Rightarrow> nat \<Rightarrow> nat \<Rightarrow> tFile list \<Rightarrow> tFile list \<times> tFile list" where
  "reduce_loop ks tts n i [] = ([], [])"
| "reduce_loop ks tts n i (t # ts) =
     (let (ft, sk) = reduce_loop ks tts n (i + 1) ts
      in if reduce_skip ks tts n i t then (ft, t # sk) else (t # ft, sk))"

definition reduce :: "compaction \<Rightarrow> compaction" where
  "reduce c =
     (let t1 = levels1 c
      in if length t1 \<le> 2 then c
         else (case sourceIterator c of
                 Inl e \<Rightarrow> c
               | Inr ks \<Rightarrow>
                   let targetTableSize = compactionTableSize (opts (c_s c)) (sourceLevel c + 1);
                       (ft, sk) = reduce_loop ks targetTableSize (length t1) 0 t1
                   in if length sk > 0 then c\<lparr> levels1 := ft, skips := sk \<rparr> else c))"

subsection \<open>newCompaction and the picker\<close>

definition newCompaction ::
  "session \<Rightarrow> version \<Rightarrow> nat \<Rightarrow> tFile list \<Rightarrow> compactionType \<Rightarrow> error + compaction" where
  "newCompaction s v sl t0 ct =
     (case expand \<lparr> c_s = s, c_v = v, c_typ = ct, sourceLevel = sl,
                    levels0 = t0, levels1 = [],
                    maxGPOverlaps = compactionGPOverlaps (opts s) sl,
                    skips = [], skipIndex = 0,
                    gp = [], gpi = 0, seenKey = False, gpOverlappedBytes = 0,
                    c_imin = None, c_imax = None,
                    tPtrs = replicate (length (levels v)) 0,
                    released = False,
                    snapGPI = 0, snapSeenKey = False, snapGPOverlappedBytes = 0,
                    snapTPtrs = [], snapSkipIndex = 0,
                    overflowed = False \<rparr> of
        Inl e \<Rightarrow> Inl e
      | Inr c \<Rightarrow> Inr (save (reduce c)))"

text \<open>\<^verbatim>\<open>sort.Search\<close> of the Go library: binary search on \<open>[0, n)\<close>.\<close>

function sort_Search_loop :: "(nat \<Rightarrow> bool) \<Rightarrow> nat \<Rightarrow> nat \<Rightarrow> nat" where
  "sort_Search_loop f i j =
     (if i < j
      then let h = (i + j) div 2
           in if \<not> f h then sort_Search_loop f (h + 1) j else sort_Search_loop f i h
      else i)"
  by pat_completeness auto
termination
  by (relation "measure (\<lambda>(f, i, j). j - i)") auto

definition sort_Search :: "nat \<Rightarrow> (nat \<Rightarrow> bool) \<Rightarrow> nat" where
  "sort_Search n f = sort_Search_loop f 0 n"

definition pickTablesSorted :: "session \<Rightarrow> tFile list \<Rightarrow> nat \<Rightarrow> error + (tFile \<times> bool)" where
  "pickTablesSorted s tables sl =
     (let n = length tables;
          oPrefix = overflowPrefix (opts s);
          i = sort_Search n (\<lambda>i. uCompare (ukey (imin (tables ! i))) oPrefix \<ge> 0)
      in if length oPrefix > 0 \<and> i < n \<and> prefix oPrefix (ukey (imin (tables ! i)))
         then Inr (tables ! i, True)
         else
           let j = (case getCompPtr s sl of
                      None \<Rightarrow> n
                    | Some cptr \<Rightarrow> sort_Search n (\<lambda>i. iCompare (imax (tables ! i)) cptr > 0))
           in if j < n then Inr (tables ! j, False)
              else (case tables of
                      [] \<Rightarrow> Inl PanicIndexOutOfRange
                    | t # ts \<Rightarrow> Inr (t, False)))"

text \<open>
  \<^verbatim>\<open>pickCompaction\<close> on the current version \<open>v\<close> of the session: \<open>Inr None\<close> is the
  nil result (nothing to compact).
\<close>

definition pickCompaction :: "session \<Rightarrow> version \<Rightarrow> error + compaction option" where
  "pickCompaction s v =
     (if cScore v \<ge> 1
      then
        let sl = cLevel v
        in if \<not> sl < length (levels v) then Inl PanicIndexOutOfRange
           else
             let tables = levels v ! sl;
                 r = (if sl > 0 then pickTablesSorted s tables sl
                      else (case tables of
                              [] \<Rightarrow> Inl PanicIndexOutOfRange
                            | t # ts \<Rightarrow> Inr (t, False)))
             in (case r of
                   Inl e \<Rightarrow> Inl e
                 | Inr (picked, ovf) \<Rightarrow>
                     (case newCompaction s v sl [picked]
                             (if sl = 0 then level0Compaction else nonLevel0Compaction) of
                        Inl e \<Rightarrow> Inl e
                      | Inr c \<Rightarrow> Inr (Some (c\<lparr> overflowed := ovf \<rparr>))))
      else
        (case cSeek v of
           None \<Rightarrow> Inr None
         | Some ts \<Rightarrow>
             (case newCompaction s v (ts_level ts) [ts_table ts] seekCompaction of
                Inl e \<Rightarrow> Inl e
              | Inr c \<Rightarrow> Inr (Some (c\<lparr> overflowed := False \<rparr>)))))"

section \<open>The progress cursors\<close>

subsection \<open>baseLevelForKey\<close>

text \<open>
  The inner loop of \<^verbatim>\<open>baseLevelForKey\<close> at one level, over the tables from the
  cursor \<open>p\<close> on: whether a table covering the user key was met, and the cursor after
  the loop.
\<close>

fun baseLevel_scan :: "bytes \<Rightarrow> tFile list \<Rightarrow> nat \<Rightarrow> bool \<times> nat" where
  "baseLevel_scan u [] p = (False, p)"
| "baseLevel_scan u (t # ts) p =
     (if uCompare u (ukey (imax t)) \<le> 0
      then (uCompare u (ukey (imin t)) \<ge> 0, p)
      else baseLevel_scan u ts (p + 1))"

text \<open>
  The outer loop, from \<open>level\<close> on. \<^verbatim>\<open>c.tPtrs[level]\<close> panics when the cursor
  list is shorter than the level list.
\<close>

function baseLevel_loop ::
  "tFile list list \<Rightarrow> bytes \<Rightarrow> nat \<Rightarrow> nat list \<Rightarrow> error + (bool \<times> nat list)" where
  "baseLevel_loop lv u level ptrs =
     (if level < length lv
      then if \<not> level < length ptrs then Inl PanicIndexOutOfRange
           else (case baseLevel_scan u (drop (ptrs ! level) (lv ! level)) (ptrs ! level) of
                   (True, p) \<Rightarrow> Inr (False, ptrs[level := p])
                 | (False, p) \<Rightarrow> baseLevel_loop lv u (level + 1) (ptrs[level := p]))
      else Inr (True, ptrs))"
  by pat_completeness auto
termination
  by (relation "measure (\<lambda>(lv, u, level, ptrs). length lv - level)") auto

declare baseLevel_loop.simps [simp del]

definition baseLevelForKey :: "compaction \<Rightarrow> bytes \<Rightarrow> error + (bool \<times> compaction)" where
  "baseLevelForKey c u =
     (case baseLevel_loop (levels (c_v c)) u (sourceLevel c + 2) (tPtrs c) of
        Inl e \<Rightarrow> Inl e
      | Inr (r, ptrs) \<Rightarrow> Inr (r, c\<lparr> tPtrs := ptrs \<rparr>))"

subsection \<open>shouldStopBefore\<close>

fun gp_scan :: "internalKey \<Rightarrow> bool \<Rightarrow> tFile list \<Rightarrow> nat \<Rightarrow> int \<Rightarrow> nat \<times> int" where
  "gp_scan ikey seen [] i ob = (i, ob)"
| "gp_scan ikey seen (g # gs) i ob =
     (if iCompare ikey (imax g) \<le> 0 then (i, ob)
      else gp_scan ikey seen gs (i + 1) (if seen then ob + fsize g else ob))"

fun skip_scan :: "internalKey \<Rightarrow> tFile list \<Rightarrow> nat \<Rightarrow> bool \<Rightarrow> nat \<times> bool" where
  "skip_scan ikey [] i st = (i, st)"
| "skip_scan ikey (t # ts) i st =
     (if uCompare (ukey ikey) (ukey (imin t)) < 0 then (i, st)
      else skip_scan ikey ts (i + 1) True)"

definition shouldStopBefore :: "compaction \<Rightarrow> internalKey \<Rightarrow> bool \<times> compaction" where
  "shouldStopBefore c ikey =
     (let (i, ob) = gp_scan ikey (seenKey c) (drop (gpi c) (gp c)) (gpi c) (gpOverlappedBytes c);
          over = (ob > maxGPOverlaps c);
          (si, st) = skip_scan ikey (drop (skipIndex c) (skips c)) (skipIndex c) over
      in (st, c\<lparr> gpi := i, seenKey := True,
                 gpOverlappedBytes := (if over then 0 else ob),
                 skipIndex := si \<rparr>))"

section \<open>The catalog edit and the storage\<close>

text \<open>
  Modelled from the spec: \<^verbatim>\<open>sessionRecord\<close> (\<^verbatim>\<open>session_record.go\<close> is not among
  the sources), the catalog edit: a batch of additions and deletions of table files per
  level, plus compaction-pointer updates.
\<close>

record cpRecord =
  cp_level :: nat
  cp_ikey :: "internalKey option"

record atRecord =
  at_level :: nat
  at_num :: nat
  at_size :: int
  at_imin :: internalKey
  at_imax :: internalKey

record dtRecord =
  dt_level :: nat
  dt_num :: nat

record sessionRecord =
  compPtrs :: "cpRecord list"
  addedTables :: "atRecord list"
  deletedTables :: "dtRecord list"

definition addCompPtr :: "sessionRecord \<Rightarrow> nat \<Rightarrow> internalKey option \<Rightarrow> sessionRecord" where
  "addCompPtr r level ik = r\<lparr> compPtrs := compPtrs r @ [\<lparr> cp_level = level, cp_ikey = ik \<rparr>] \<rparr>"

definition addTableFile :: "sessionRecord \<Rightarrow> nat \<Rightarrow> tFile \<Rightarrow> sessionRecord" where
  "addTableFile r level t =
     r\<lparr> addedTables := addedTables r @
          [\<lparr> at_level = level, at_num = fd_num t, at_size = fsize t,
             at_imin = imin t, at_imax = imax t \<rparr>] \<rparr>"

definition delTable :: "sessionRecord \<Rightarrow> nat \<Rightarrow> nat \<Rightarrow> sessionRecord" where
  "delTable r level n = r\<lparr> deletedTables := deletedTables r @ [\<lparr> dt_level = level, dt_num = n \<rparr>] \<rparr>"

definition resetAddedTables :: "sessionRecord \<Rightarrow> sessionRecord" where
  "resetAddedTables r = r\<lparr> addedTables := [] \<rparr>"

text \<open>
  Modelled from the spec: the storage (\<^verbatim>\<open>storage.Storage\<close> is not among the
  sources), as the set of the numbers of the table files it holds. \<^verbatim>\<open>Remove\<close>
  deletes the file, or fails on a file that is not there.
\<close>

definition stor_Remove :: "nat set \<Rightarrow> nat \<Rightarrow> error option \<times> nat set" where
  "stor_Remove st n = (if n \<in> st then (None, st - {n}) else (Some ErrNotExist, st))"

section \<open>The compaction executor\<close>

text \<open>
  \<^verbatim>\<open>tableCompactionBuilder\<close>. \<open>b_stor\<close> is the storage \<^verbatim>\<open>b.s.stor\<close>; the
  session \<^verbatim>\<open>b.s\<close> is the one of the compaction.
\<close>

record tableCompactionBuilder =
  b_c :: compaction
  b_rec :: sessionRecord
  b_stor :: "nat set"
  kerrCnt :: nat
  dropCnt :: nat
  minSeq :: nat
  strict :: bool
  tableSize :: int

text \<open>
  What one attempt of \<^verbatim>\<open>run\<close> meets outside the merge loop: the entries the merged
  input iterator yields and the error it ends in; for each hand-over of a full buffer to
  the writer stage, which case of the \<^verbatim>\<open>select\<close> fires; the tables the writer stage
  finishes (created on the storage and recorded by \<^verbatim>\<open>flushLoop\<close>) and the error
  it ends in.
\<close>

datatype handover = Sent | WriterError error | Closing

record runEnv =
  entries :: "(internalKey \<times> bytes) list"
  iterErr :: "error option"
  handoff :: "nat \<Rightarrow> handover"
  finished :: "tFile list"
  werr :: "error option"

text \<open>
  The local variables of \<^verbatim>\<open>run\<close>. \<open>out\<close> lists every \<^verbatim>\<open>bIter.Append\<close> of the
  attempt in order: key, value, \<open>canStop\<close>, \<open>shouldStop\<close>. \<open>pending\<close> says that
  \<^verbatim>\<open>bIter\<close> is not nil, \<open>bufLen\<close> is the length of its data, \<open>nHand\<close> counts the
  hand-overs.
\<close>

record runLocals =
  hasLastUkey :: bool
  lastUkey :: bytes
  lastSeq :: nat
  lastHasOPrefix :: bool
  cnt :: nat
  out :: "(internalKey \<times> bytes \<times> bool \<times> bool) list"
  pending :: bool
  bufLen :: nat
  nHand :: nat

definition run_append ::
  "runEnv \<Rightarrow> tableCompactionBuilder \<Rightarrow> runLocals \<Rightarrow> internalKey \<Rightarrow> bytes \<Rightarrow> bool \<Rightarrow> bool
     \<Rightarrow> error option \<times> tableCompactionBuilder \<times> runLocals" where
  "run_append env b l ikey val canStop shouldStop =
     (let n = bufLen l + (length (ukey ikey) + 8) + length val;
          l1 = l\<lparr> out := out l @ [(ikey, val, canStop, shouldStop)], pending := True, bufLen := n \<rparr>
      in if int n \<ge> blockSize (opts (c_s (b_c b)))
         then (case handoff env (nHand l) of
                 Sent \<Rightarrow> (None, b, l1\<lparr> pending := False, bufLen := 0, nHand := nHand l + 1 \<rparr>)
               | WriterError e \<Rightarrow> (Some e, b, l1\<lparr> nHand := nHand l + 1 \<rparr>)
               | Closing \<Rightarrow> (Some ErrTransactExiting, b, l1))
         else (None, b, l1))"

text \<open>
  The block of \<^verbatim>\<open>run\<close> for the first occurrence of a user key: \<open>canStop\<close>,
  whether the overflow prefix forces a stop, and the locals afterwards.
\<close>

definition run_first :: "bytes \<Rightarrow> runLocals \<Rightarrow> bytes \<Rightarrow> bool \<times> bool \<times> runLocals" where
  "run_first oPrefix l uk =
     (if \<not> hasLastUkey l \<or> uCompare (lastUkey l) uk \<noteq> 0
      then let hasOPrefix = (length oPrefix > 0 \<and> prefix oPrefix uk)
           in (True, hasLastUkey l \<and> hasOPrefix \<noteq> lastHasOPrefix l,
               l\<lparr> hasLastUkey := True, lastUkey := uk, lastSeq := keyMaxSeq,
                  lastHasOPrefix := hasOPrefix \<rparr>)
      else (False, False, l))"

text \<open>
  The \<^verbatim>\<open>switch\<close> of \<^verbatim>\<open>run\<close>: whether the entry is dropped, and the compaction
  after the call of \<^verbatim>\<open>baseLevelForKey\<close>, which is made only when the first case
  fails and the entry is a delete-marker with a sequence number up to \<open>minSeq\<close>.
\<close>

definition run_switch ::
  "compaction \<Rightarrow> nat \<Rightarrow> nat \<Rightarrow> bytes \<Rightarrow> nat \<Rightarrow> keyType \<Rightarrow> error + (bool \<times> compaction)" where
  "run_switch c mseq lseq luk sq kt =
     (if lseq \<le> mseq then Inr (True, c)
      else if kt = keyTypeDel \<and> sq \<le> mseq then baseLevelForKey c luk
      else Inr (False, c))"

text \<open>One iteration of the loop of \<^verbatim>\<open>run\<close>, on the entry \<open>(ikey, val)\<close>.\<close>

definition run_step ::
  "runEnv \<Rightarrow> tableCompactionBuilder \<Rightarrow> runLocals \<Rightarrow> internalKey \<times> bytes
     \<Rightarrow> error option \<times> tableCompactionBuilder \<times> runLocals" where
  "run_step env b l0 e =
     (let ikey = fst e; val = snd e;
          oPrefix = overflowPrefix (opts (c_s (b_c b)));
          l = l0\<lparr> cnt := cnt l0 + 1 \<rparr>
      in case parseInternalKey ikey of
           Inr (uk, sq, kt) \<Rightarrow>
             (case shouldStopBefore (b_c b) ikey of
                (shouldStop0, c1) \<Rightarrow>
                  (case run_first oPrefix l uk of
                     (canStop, forced, l1) \<Rightarrow>
                       (case run_switch c1 (minSeq b) (lastSeq l1) (lastUkey l1) sq kt of
                          Inl err \<Rightarrow> (Some err, b\<lparr> b_c := c1 \<rparr>, l1)
                        | Inr (dropped, c2) \<Rightarrow>
                            if dropped
                            then (None, b\<lparr> b_c := c2, dropCnt := dropCnt b + 1 \<rparr>,
                                  l1\<lparr> lastSeq := sq \<rparr>)
                            else run_append env (b\<lparr> b_c := c2 \<rparr>) (l1\<lparr> lastSeq := sq \<rparr>)
                                   ikey val canStop (forced \<or> shouldStop0))))
         | Inl kerr \<Rightarrow>
             if strict b then (Some kerr, b, l)
             else run_append env (b\<lparr> kerrCnt := kerrCnt b + 1 \<rparr>)
                    (l\<lparr> hasLastUkey := False, lastUkey := [], lastSeq := keyMaxSeq \<rparr>)
                    ikey val False False)"

fun run_loop ::
  "runEnv \<Rightarrow> tableCompactionBuilder \<Rightarrow> runLocals \<Rightarrow> (internalKey \<times> bytes) list
     \<Rightarrow> error option \<times> tableCompactionBuilder \<times> runLocals" where
  "run_loop env b l [] = (None, b, l)"
| "run_loop env b l (e # es) =
     (case run_step env b l e of
        (Some err, b', l') \<Rightarrow> (Some err, b', l')
      | (None, b', l') \<Rightarrow> run_loop env b' l' es)"

definition run_init :: runLocals where
  "run_init = \<lparr> hasLastUkey = False, lastUkey = [], lastSeq = 0, lastHasOPrefix = False,
                cnt = 0, out = [], pending = False, bufLen = 0, nHand = 0 \<rparr>"

text \<open>
  The body of \<^verbatim>\<open>run\<close> after \<^verbatim>\<open>restore\<close>: the loop, the check of the iterator's
  error, and the hand-over of the last buffer.
\<close>

definition run_body ::
  "runEnv \<Rightarrow> tableCompactionBuilder \<Rightarrow> error option \<times> tableCompactionBuilder \<times> runLocals" where
  "run_body env b =
     (case run_loop env (b\<lparr> b_c := restore (b_c b) \<rparr>) run_init (entries env) of
        (Some err, b', l) \<Rightarrow> (Some err, b', l)
      | (None, b', l) \<Rightarrow>
          (case iterErr env of
             Some err \<Rightarrow> (Some err, b', l)
           | None \<Rightarrow>
               if pending l
               then (case handoff env (nHand l) of
                       WriterError e \<Rightarrow> (Some e, b', l)
                     | _ \<Rightarrow> (None, b', l\<lparr> pending := False \<rparr>))
               else (None, b', l)))"

text \<open>
  The deferred function of \<^verbatim>\<open>run\<close>: \<open>err\<close> is the error the body returned (none
  when it panicked), \<open>we\<close> the error of the writer stage.
\<close>

fun removeAdded :: "nat set \<Rightarrow> atRecord list \<Rightarrow> nat set" where
  "removeAdded st [] = st"
| "removeAdded st (a # as) = removeAdded (snd (stor_Remove st (at_num a))) as"

definition run_deferred ::
  "error option \<Rightarrow> error option \<Rightarrow> tableCompactionBuilder \<Rightarrow> error option \<times> tableCompactionBuilder" where
  "run_deferred err we b =
     (let err' = (if err = None then we else err)
      in if err' \<noteq> None
         then (err', b\<lparr> b_stor := removeAdded (b_stor b) (addedTables (b_rec b)),
                        b_rec := resetAddedTables (b_rec b) \<rparr>)
         else (err', b))"

text \<open>
  The writer stage of one attempt, as far as the catalog edit and the storage see it:
  each finished table is a file on the storage and an added table of level
  \<open>sourceLevel + 1\<close> in the edit (\<^verbatim>\<open>flushLoop\<close>).
\<close>

definition flushLoop :: "tFile list \<Rightarrow> tableCompactionBuilder \<Rightarrow> tableCompactionBuilder" where
  "flushLoop ts b =
     b\<lparr> b_rec := foldl (\<lambda>r t. addTableFile r (sourceLevel (b_c b) + 1) t) (b_rec b) ts,
        b_stor := b_stor b \<union> set (map fd_num ts) \<rparr>"

text \<open>
  \<^verbatim>\<open>tableCompactionBuilder.run\<close>: the transact counter after the attempt, the error
  returned (or the panic raised), and the builder.
\<close>

definition run ::
  "runEnv \<Rightarrow> tableCompactionBuilder \<Rightarrow> nat \<times> error option \<times> tableCompactionBuilder" where
  "run env b =
     (case run_body env b of
        (r, b1, l) \<Rightarrow>
          let b2 = flushLoop (finished env) b1;
              panicked = (case r of None \<Rightarrow> False | Some e \<Rightarrow> isPanic e);
              (err, b3) = run_deferred (if panicked then None else r) (werr env) b2
          in (cnt l, if panicked then r else err, b3))"

fun revert_loop :: "nat set \<Rightarrow> atRecord list \<Rightarrow> error option \<times> nat set" where
  "revert_loop st [] = (None, st)"
| "revert_loop st (a # as) =
     (case stor_Remove st (at_num a) of
        (Some err, st') \<Rightarrow> (Some err, st')
      | (None, st') \<Rightarrow> revert_loop st' as)"

definition revert :: "tableCompactionBuilder \<Rightarrow> error option \<times> tableCompactionBuilder" where
  "revert b =
     (case revert_loop (b_stor b) (addedTables (b_rec b)) of
        (r, st) \<Rightarrow> (r, b\<lparr> b_stor := st \<rparr>))"

section \<open>The retry wrapper\<close>

text \<open>
  \<^verbatim>\<open>time.Duration\<close> is a signed 64-bit count of nanoseconds: an \<open>int\<close>, with the
  wrap-around of the multiplication written out.
\<close>

definition wrap64 :: "int \<Rightarrow> int" where
  "wrap64 x = (x + 2 ^ 63) mod 2 ^ 64 - 2 ^ 63"

definition Second :: int where
  "Second = 1000000000"

definition backoffMin :: int where
  "backoffMin = 1 * Second"

definition backoffMax :: int where
  "backoffMax = 8 * Second"

definition backoffMul :: int where
  "backoffMul = 2 * Second"

text \<open>
  What one round of the loop of \<^verbatim>\<open>compactionTransact\<close> meets: whether the DB is
  closed at the top of the round, which case of the \<^verbatim>\<open>select\<close> after the run fires,
  and which case of the \<^verbatim>\<open>select\<close> of the backoff fires.
\<close>

datatype errSelect = ErrSetC | PerErrC error | CloseC

datatype backoffSelect = TimerC | BackoffCloseC

record attempt =
  isClosed :: bool
  afterRun :: errSelect
  afterBackoff :: backoffSelect

text \<open>
  How the wrapper ends: it returns after a successful run; it unwinds with the panic
  \<^verbatim>\<open>errCompactionTransactExiting\<close>, after \<^verbatim>\<open>revert\<close>; another panic passes
  through it; or it is still retrying when the rounds listed are used up.
\<close>

datatype 'st transactResult = Returned 'st | Exited 'st | Panicked error 'st | Retrying 'st

text \<open>The backoff lines of the loop: the duration waited, and the next \<open>backoff\<close> and \<open>lastCnt\<close>.\<close>

definition backoff_step :: "int \<Rightarrow> nat \<Rightarrow> nat \<Rightarrow> int \<times> int \<times> nat" where
  "backoff_step backoff lastCnt n =
     (let backoff1 = (if n > lastCnt then backoffMin else backoff);
          lastCnt1 = (if n > lastCnt then n else lastCnt);
          backoff2 = (if backoff1 < backoffMax
                      then let m = wrap64 (backoff1 * backoffMul)
                           in if m > backoffMax then backoffMax else m
                      else backoff1)
      in (backoff1, backoff2, lastCnt1))"

text \<open>
  The loop of \<^verbatim>\<open>compactionTransact\<close> for a job with the methods \<open>runf\<close> and
  \<open>revertf\<close>, over the rounds listed. The second component lists the durations the
  backoff timer was set to, in order.
\<close>

fun compactionTransact_loop ::
  "bool \<Rightarrow> ('e \<Rightarrow> 'st \<Rightarrow> nat \<times> error option \<times> 'st) \<Rightarrow> ('st \<Rightarrow> error option \<times> 'st)
     \<Rightarrow> int \<Rightarrow> nat \<Rightarrow> int list \<Rightarrow> 'st \<Rightarrow> (attempt \<times> 'e) list
     \<Rightarrow> 'st transactResult \<times> int list" where
  "compactionTransact_loop dis runf revertf backoff lastCnt waits st [] = (Retrying st, waits)"
| "compactionTransact_loop dis runf revertf backoff lastCnt waits st ((a, e) # rest) =
     (if isClosed a then (Exited (snd (revertf st)), waits)
      else
        (case runf e st of
           (n, err, st1) \<Rightarrow>
             (case err of
                None \<Rightarrow>
                  (case afterRun a of
                     CloseC \<Rightarrow> (Exited (snd (revertf st1)), waits)
                   | _ \<Rightarrow> (Returned st1, waits))
              | Some x \<Rightarrow>
                  if x = ErrTransactExiting then (Exited (snd (revertf st1)), waits)
                  else if isPanic x then (Panicked x st1, waits)
                  else if afterRun a \<noteq> ErrSetC then (Exited (snd (revertf st1)), waits)
                  else if IsCorrupted x then (Exited (snd (revertf st1)), waits)
                  else if dis
                  then compactionTransact_loop dis runf revertf backoff lastCnt waits st1 rest
                  else
                    (case backoff_step backoff lastCnt n of
                       (w, backoff2, lastCnt1) \<Rightarrow>
                         (case afterBackoff a of
                            BackoffCloseC \<Rightarrow> (Exited (snd (revertf st1)), waits @ [w])
                          | TimerC \<Rightarrow>
                              compactionTransact_loop dis runf revertf backoff2 lastCnt1
                                (waits @ [w]) st1 rest)))))"

definition compactionTransact ::
  "bool \<Rightarrow> ('e \<Rightarrow> 'st \<Rightarrow> nat \<times> error option \<times> 'st) \<Rightarrow> ('st \<Rightarrow> error option \<times> 'st)
     \<Rightarrow> 'st \<Rightarrow> (attempt \<times> 'e) list \<Rightarrow> 'st transactResult \<times> int list" where
  "compactionTransact dis runf revertf st rounds =
     compactionTransact_loop dis runf revertf backoffMin 0 [] st rounds"

text \<open>
  A round in which nothing interferes with the wrapper: the DB is open, the error status
  is taken and the backoff timer fires. A transient error is one that is neither a panic
  nor a corruption.
\<close>

definition undisturbed :: "attempt \<Rightarrow> bool" where
  "undisturbed a = (\<not> isClosed a \<and> afterRun a = ErrSetC \<and> afterBackoff a = TimerC)"

definition transient :: "error \<Rightarrow> bool" where
  "transient x = (\<not> isPanic x \<and> \<not> IsCorrupted x)"

section \<open>Table compaction\<close>

text \<open>
  Modelled from the spec: \<^verbatim>\<open>session.commit\<close> (not among the sources). The catalog
  is the list of the edits committed so far; a commit that succeeds appends the edit, a
  commit that fails leaves the catalog as it was. Each round of \<^verbatim>\<open>compactionCommit\<close>
  meets the error of its commit, or none.
\<close>

definition commit_run ::
  "sessionRecord \<Rightarrow> error option \<Rightarrow> sessionRecord list \<Rightarrow> nat \<times> error option \<times> sessionRecord list" where
  "commit_run r e cat = (0, e, if e = None then cat @ [r] else cat)"

definition compactionCommit ::
  "bool \<Rightarrow> sessionRecord \<Rightarrow> sessionRecord list \<Rightarrow> (attempt \<times> error option) list
     \<Rightarrow> sessionRecord list transactResult \<times> int list" where
  "compactionCommit dis r cat rounds =
     compactionTransact dis (commit_run r) (\<lambda>cat. (None, cat)) cat rounds"

text \<open>The part of the \<^verbatim>\<open>DB\<close> a table compaction reads and writes.\<close>

record DB =
  db_stor :: "nat set"
  db_catalog :: "sessionRecord list"
  db_minSeq :: nat

text \<open>
  The result of \<^verbatim>\<open>tableCompaction\<close>: \<open>moved\<close> says that the trivial branch was
  taken, \<open>built\<close> is the result of the build stage (none in the trivial branch),
  \<open>edit\<close> the catalog edit handed to the commit (none when the build did not return),
  \<open>committed\<close> the result of the commit stage, \<open>db_after\<close> the storage and the
  catalog afterwards.
\<close>

record tcResult =
  moved :: bool
  built :: "tableCompactionBuilder transactResult option"
  edit :: "sessionRecord option"
  committed :: "sessionRecord list transactResult option"
  db_after :: DB

definition tableCompaction ::
  "DB \<Rightarrow> compaction \<Rightarrow> bool \<Rightarrow> (attempt \<times> runEnv) list \<Rightarrow> (attempt \<times> error option) list
     \<Rightarrow> tcResult" where
  "tableCompaction db c noTrivial buildRounds commitRounds =
     (let sl = sourceLevel c;
          dis = disableCompactionBackoff (opts (c_s c));
          rec0 = \<lparr> compPtrs = [], addedTables = [], deletedTables = [] \<rparr>;
          rec1 = (if \<not> overflowed c then addCompPtr rec0 sl (c_imax c) else rec0);
          finish = (\<lambda>mv bt r st.
            let cm = fst (compactionCommit dis r (db_catalog db) commitRounds)
            in \<lparr> moved = mv, built = bt, edit = Some r, committed = Some cm,
                 db_after = db\<lparr> db_stor := st,
                              db_catalog := (case cm of Returned cat \<Rightarrow> cat
                                             | Exited cat \<Rightarrow> cat
                                             | Panicked x cat \<Rightarrow> cat
                                             | Retrying cat \<Rightarrow> cat) \<rparr> \<rparr>)
      in if \<not> noTrivial \<and> trivial c
         then (let t = hd (levels0 c)
               in finish True None (addTableFile (delTable rec1 sl (fd_num t)) (sl + 1) t) (db_stor db))
         else
           let rec2 = foldl (\<lambda>r t. delTable r sl (fd_num t)) rec1 (levels0 c);
               rec3 = foldl (\<lambda>r t. delTable r (sl + 1) (fd_num t)) rec2 (levels1 c);
               b = \<lparr> b_c = c, b_rec = rec3, b_stor = db_stor db, kerrCnt = 0, dropCnt = 0,
                     minSeq = db_minSeq db,
                     strict = strictCompaction (opts (c_s c)),
                     tableSize = compactionTableSize (opts (c_s c)) (sl + 1) \<rparr>;
               bt = fst (compactionTransact dis run revert b buildRounds)
           in (case bt of
                 Returned b' \<Rightarrow> finish False (Some bt) (b_rec b') (b_stor b')
               | Exited b' \<Rightarrow>
                   \<lparr> moved = False, built = Some bt, edit = None, committed = None,
                     db_after = db\<lparr> db_stor := b_stor b' \<rparr> \<rparr>
               | Panicked x b' \<Rightarrow>
                   \<lparr> moved = False, built = Some bt, edit = None, committed = None,
                     db_after = db\<lparr> db_stor := b_stor b' \<rparr> \<rparr>
               | Retrying b' \<Rightarrow>
                   \<lparr> moved = False, built = Some bt, edit = None, committed = None,
                     db_after = db\<lparr> db_stor := b_stor b' \<rparr> \<rparr>))"

section \<open>A level-0 compaction used in the examples\<close>

text \<open>
  Four level-0 files that overlap on the user key \<open>k\<close>, holding the entries of
  \<open>k\<close> with the sequence numbers 5, 4, 3, 2 of the kinds put, put, delete, put; an
  empty level 1; a level-2 table covering \<open>k\<close>. The oldest live snapshot has the
  sequence number 4.
\<close>

definition ex_opts :: options where
  "ex_opts = \<lparr> overflowPrefix = [], compactionGPOverlaps = (\<lambda>l. 100),
               compactionExpandLimit = (\<lambda>l. 1000), compactionSourceLimit = (\<lambda>l. 1000),
               compactionTableSize = (\<lambda>l. 100), strictCompaction = False, blockSize = 4096,
               disableCompactionBackoff = False \<rparr>"

definition ex_session :: session where
  "ex_session = \<lparr> opts = ex_opts, getCompPtr = (\<lambda>l. None), tops = (\<lambda>n. Inr []) \<rparr>"

definition ex_file :: "nat \<Rightarrow> internalKey \<Rightarrow> internalKey \<Rightarrow> tFile" where
  "ex_file n lo hi = \<lparr> fd_num = n, fsize = 10, imin = lo, imax = hi \<rparr>"

definition k5 :: internalKey where "k5 = makeInternalKey ''k'' 5 keyTypeVal"

definition k4 :: internalKey where "k4 = makeInternalKey ''k'' 4 keyTypeVal"

definition k3 :: internalKey where "k3 = makeInternalKey ''k'' 3 keyTypeDel"

definition k2 :: internalKey where "k2 = makeInternalKey ''k'' 2 keyTypeVal"

definition ex_gp :: tFile where
  "ex_gp = ex_file 9 (makeInternalKey ''a'' 1 keyTypeVal) (makeInternalKey ''z'' 1 keyTypeVal)"

definition ex_version :: version where
  "ex_version =
     \<lparr> levels = [[ex_file 1 k5 k5, ex_file 2 k4 k4, ex_file 3 k3 k3, ex_file 4 k2 k2], [], [ex_gp]],
       cScore = 1, cLevel = 0, cSeek = None \<rparr>"

definition ex_c :: compaction where
  "ex_c = \<lparr> c_s = ex_session, c_v = ex_version, c_typ = level0Compaction, sourceLevel = 0,
            levels0 = [ex_file 1 k5 k5, ex_file 2 k4 k4, ex_file 3 k3 k3, ex_file 4 k2 k2],
            levels1 = [], maxGPOverlaps = 100, skips = [], skipIndex = 0,
            gp = [ex_gp], gpi = 0, seenKey = False, gpOverlappedBytes = 0,
            c_imin = Some k5, c_imax = Some k2, tPtrs = [0, 0, 0], released = False,
            snapGPI = 0, snapSeenKey = False, snapGPOverlappedBytes = 0,
            snapTPtrs = [0, 0, 0], snapSkipIndex = 0, overflowed = False \<rparr>"

definition ex_builder :: tableCompactionBuilder where
  "ex_builder = \<lparr> b_c = ex_c,
                  b_rec = \<lparr> compPtrs = [], addedTables = [], deletedTables = [] \<rparr>,
                  b_stor = {1, 2, 3, 4, 9}, kerrCnt = 0, dropCnt = 0,
                  minSeq = 4, strict = False, tableSize = 100 \<rparr>"

definition ex_env :: runEnv where
  "ex_env = \<lparr> entries = [(k5, ''v5''), (k4, ''v4''), (k3, []), (k2, ''v2'')], iterErr = None,
              handoff = (\<lambda>n. Sent), finished = [], werr = None \<rparr>"

text \<open>
  A level-0 compaction of one file with nothing below it (a trivial one), a DB holding
  that file, a round of the retry wrapper in which nothing interferes, and an attempt
  that writes one output table, number 7.
\<close>

definition ex_v1 :: version where
  "ex_v1 = \<lparr> levels = [[ex_file 1 k5 k5], [], []], cScore = 1, cLevel = 0, cSeek = None \<rparr>"

definition ex_triv :: compaction where
  "ex_triv = \<lparr> c_s = ex_session, c_v = ex_v1, c_typ = level0Compaction, sourceLevel = 0,
            levels0 = [ex_file 1 k5 k5],
            levels1 = [], maxGPOverlaps = 100, skips = [], skipIndex = 0,
            gp = [], gpi = 0, seenKey = False, gpOverlappedBytes = 0,
            c_imin = Some k5, c_imax = Some k5, tPtrs = [0, 0, 0], released = False,
            snapGPI = 0, snapSeenKey = False, snapGPOverlappedBytes = 0,
            snapTPtrs = [0, 0, 0], snapSkipIndex = 0, overflowed = False \<rparr>"

definition ex_db :: DB where
  "ex_db = \<lparr> db_stor = {1}, db_catalog = [], db_minSeq = 4 \<rparr>"

definition ex_attempt :: attempt where
  "ex_attempt = \<lparr> isClosed = False, afterRun = ErrSetC, afterBackoff = TimerC \<rparr>"

definition ex_env1 :: runEnv where
  "ex_env1 = \<lparr> entries = [(k5, ''v5'')], iterErr = None, handoff = (\<lambda>n. Sent),
               finished = [ex_file 7 k5 k5], werr = None \<rparr>"

text \<open>
  A level-1 compaction whose source group can grow: two level-1 files \<open>a..c\<close> and
  \<open>d..f\<close> under one level-2 file \<open>a..f\<close>; the compaction as \<^verbatim>\<open>newCompaction\<close>
  hands it to \<^verbatim>\<open>expand\<close>, picked on the first file.
\<close>

definition ka :: internalKey where "ka = makeInternalKey ''a'' 1 keyTypeVal"
definition kc :: internalKey where "kc = makeInternalKey ''c'' 1 keyTypeVal"
definition kd :: internalKey where "kd = makeInternalKey ''d'' 1 keyTypeVal"
definition kf :: internalKey where "kf = makeInternalKey ''f'' 1 keyTypeVal"

definition ex_v2 :: version where
  "ex_v2 = \<lparr> levels = [[], [ex_file 11 ka kc, ex_file 12 kd kf], [ex_file 13 ka kf], []],
             cScore = 1, cLevel = 1, cSeek = None \<rparr>"

definition ex_c0 :: compaction where
  "ex_c0 = \<lparr> c_s = ex_session, c_v = ex_v2, c_typ = nonLevel0Compaction, sourceLevel = 1,
             levels0 = [ex_file 11 ka kc], levels1 = [], maxGPOverlaps = 100,
             skips = [], skipIndex = 0, gp = [], gpi = 0, seenKey = False, gpOverlappedBytes = 0,
             c_imin = None, c_imax = None, tPtrs = [0, 0, 0, 0], released = False,
             snapGPI = 0, snapSeenKey = False, snapGPOverlappedBytes = 0,
             snapTPtrs = [], snapSkipIndex = 0, overflowed = False \<rparr>"

text \<open>
  A job for the retry wrapper whose every run fails with an I/O error, reporting the
  work counter it is given, and whose revert does nothing.
\<close>

definition ex_failing_run :: "nat \<Rightarrow> unit \<Rightarrow> nat \<times> error option \<times> unit" where
  "ex_failing_run n st = (n, Some ErrIO, st)"

definition ex_revert :: "unit \<Rightarrow> error option \<times> unit" where
  "ex_revert st = (None, st)"

section \<open>Properties of the executor loop\<close>

subsection \<open>The loop body, case by case\<close>

lemma run_step_kerr:
  assumes "parseInternalKey (fst e) = Inl k"
  shows "run_step env b l e =
     (if strict b then (Some k, b, l\<lparr>cnt := cnt l + 1\<rparr>)
      else run_append env (b\<lparr> kerrCnt := kerrCnt b + 1 \<rparr>)
             (l\<lparr> cnt := cnt l + 1, hasLastUkey := False, lastUkey := [], lastSeq := keyMaxSeq \<rparr>)
             (fst e) (snd e) False False)"
  unfolding run_step_def Let_def using assms by simp

lemma run_step_ok:
  assumes "parseInternalKey (fst e) = Inr (uk, sq, kt)"
    "shouldStopBefore (b_c b) (fst e) = (ss0, c1)"
    "run_first (overflowPrefix (opts (c_s (b_c b)))) (l\<lparr>cnt := cnt l + 1\<rparr>) uk = (cs, f, l1)"
  shows "run_step env b l e =
     (case run_switch c1 (minSeq b) (lastSeq l1) (lastUkey l1) sq kt of
        Inl err \<Rightarrow> (Some err, b\<lparr> b_c := c1 \<rparr>, l1)
      | Inr (dropped, c2) \<Rightarrow>
          if dropped
          then (None, b\<lparr> b_c := c2, dropCnt := dropCnt b + 1 \<rparr>, l1\<lparr> lastSeq := sq \<rparr>)
          else run_append env (b\<lparr> b_c := c2 \<rparr>) (l1\<lparr> lastSeq := sq \<rparr>)
                 (fst e) (snd e) cs (f \<or> ss0))"
  unfolding run_step_def Let_def using assms by simp

text \<open>
  What the loop lets one observe of an attempt: the error, the compaction, the two
  parameters of the builder it reads, and the locals (with the output).
\<close>

definition job_view :: "error option \<times> tableCompactionBuilder \<times> runLocals \<Rightarrow> error option \<times> compaction \<times> nat \<times> bool \<times> runLocals" where
  "job_view x = (fst x, b_c (fst (snd x)), minSeq (fst (snd x)), strict (fst (snd x)), snd (snd x))"

lemma run_append_view:
  "b_c b = b_c b' \<Longrightarrow> minSeq b = minSeq b' \<Longrightarrow> strict b = strict b' \<Longrightarrow>
   job_view (run_append env b l k v cs ss) = job_view (run_append env b' l k v cs ss)"
  by (simp add: run_append_def job_view_def Let_def split: handover.split)

lemma run_step_view:
  assumes "b_c b = b_c b'" "minSeq b = minSeq b'" "strict b = strict b'"
  shows "job_view (run_step env b l e) = job_view (run_step env b' l e)"
proof (cases "parseInternalKey (fst e)")
  case (Inl k)
  have "job_view (run_append env (b\<lparr> kerrCnt := kerrCnt b + 1 \<rparr>) l2 k2 v2 False False)
      = job_view (run_append env (b'\<lparr> kerrCnt := kerrCnt b' + 1 \<rparr>) l2 k2 v2 False False)" for l2 k2 v2
    by (rule run_append_view) (simp_all add: assms)
  then show ?thesis
    using assms(3) by (simp add: run_step_kerr[OF Inl] job_view_def assms)
next
  case (Inr p)
  obtain uk sq kt where p: "parseInternalKey (fst e) = Inr (uk, sq, kt)"
    using Inr by (cases p) simp
  obtain ss0 c1 where ssb: "shouldStopBefore (b_c b) (fst e) = (ss0, c1)"
    by (cases "shouldStopBefore (b_c b) (fst e)")
  obtain cs f l1 where rf:
    "run_first (overflowPrefix (opts (c_s (b_c b)))) (l\<lparr>cnt := cnt l + 1\<rparr>) uk = (cs, f, l1)"
    by (cases "run_first (overflowPrefix (opts (c_s (b_c b)))) (l\<lparr>cnt := cnt l + 1\<rparr>) uk")
  have ssb': "shouldStopBefore (b_c b') (fst e) = (ss0, c1)" using ssb assms by simp
  have rf': "run_first (overflowPrefix (opts (c_s (b_c b')))) (l\<lparr>cnt := cnt l + 1\<rparr>) uk = (cs, f, l1)"
    using rf assms by simp
  have ap: "job_view (run_append env (b\<lparr> b_c := c2 \<rparr>) l2 k2 v2 x y)
      = job_view (run_append env (b'\<lparr> b_c := c2 \<rparr>) l2 k2 v2 x y)" for c2 l2 k2 v2 x y
    by (rule run_append_view) (simp_all add: assms)
  show ?thesis
  proof (cases "run_switch c1 (minSeq b) (lastSeq l1) (lastUkey l1) sq kt")
    case (Inl err)
    then show ?thesis
      unfolding run_step_ok[OF p ssb rf] run_step_ok[OF p ssb' rf'] assms(2)[symmetric]
      by (simp add: job_view_def assms)
  next
    case sw: (Inr q)
    then show ?thesis
      unfolding run_step_ok[OF p ssb rf] run_step_ok[OF p ssb' rf'] assms(2)[symmetric]
      by (cases q; cases "fst q") (simp_all add: ap, simp_all add: job_view_def assms)
  qed
qed

lemma run_loop_view:
  "b_c b = b_c b' \<Longrightarrow> minSeq b = minSeq b' \<Longrightarrow> strict b = strict b' \<Longrightarrow>
   job_view (run_loop env b l es) = job_view (run_loop env b' l es)"
proof (induction es arbitrary: b b' l)
  case Nil
  then show ?case by (simp add: job_view_def)
next
  case (Cons e es)
  obtain r b1 l1 where s1: "run_step env b l e = (r, b1, l1)" by (cases "run_step env b l e")
  obtain r' b1' l1' where s2: "run_step env b' l e = (r', b1', l1')" by (cases "run_step env b' l e")
  have v: "job_view (r, b1, l1) = job_view (r', b1', l1')"
    using run_step_view[OF Cons.prems, of env l e] s1 s2 by simp
  then have eqs: "r' = r" "l1' = l1" "b_c b1 = b_c b1'" "minSeq b1 = minSeq b1'" "strict b1 = strict b1'"
    by (simp_all add: job_view_def)
  show ?case
  proof (cases r)
    case None
    then show ?thesis using s1 s2 eqs Cons.IH[OF eqs(3,4,5), of l1] by simp
  next
    case (Some err)
    then show ?thesis using s1 s2 eqs by (simp add: job_view_def)
  qed
qed

lemma restore_idem: "restore (restore c) = restore c"
  by (simp add: restore_def)

lemma restore_shouldStopBefore: "shouldStopBefore c ik = (ss, c') \<Longrightarrow> restore c' = restore c"
  by (auto simp: shouldStopBefore_def restore_def Let_def split: prod.splits)

lemma restore_baseLevelForKey: "baseLevelForKey c u = Inr (r, c') \<Longrightarrow> restore c' = restore c"
  by (auto simp: baseLevelForKey_def restore_def split: sum.splits prod.splits)

lemma restore_run_switch: "run_switch c m ls lu sq kt = Inr (d, c') \<Longrightarrow> restore c' = restore c"
  by (auto simp: run_switch_def restore_baseLevelForKey split: if_splits)

text \<open>What no attempt changes: the compaction up to its cursors, \<open>minSeq\<close>, \<open>strict\<close>.\<close>

definition static_view :: "tableCompactionBuilder \<Rightarrow> compaction \<times> nat \<times> bool" where
  "static_view b = (restore (b_c b), minSeq b, strict b)"

lemma run_append_builder: "fst (snd (run_append env b l k v cs ss)) = b"
  by (simp add: run_append_def Let_def split: handover.split)

lemma run_step_static: "static_view (fst (snd (run_step env b l e))) = static_view b"
proof (cases "parseInternalKey (fst e)")
  case (Inl k)
  then show ?thesis
    by (simp add: run_step_kerr[OF Inl] run_append_builder static_view_def)
next
  case (Inr p)
  obtain uk sq kt where p: "parseInternalKey (fst e) = Inr (uk, sq, kt)"
    using Inr by (cases p) simp
  obtain ss0 c1 where ssb: "shouldStopBefore (b_c b) (fst e) = (ss0, c1)"
    by (cases "shouldStopBefore (b_c b) (fst e)")
  obtain cs f l1 where rf:
    "run_first (overflowPrefix (opts (c_s (b_c b)))) (l\<lparr>cnt := cnt l + 1\<rparr>) uk = (cs, f, l1)"
    by (cases "run_first (overflowPrefix (opts (c_s (b_c b)))) (l\<lparr>cnt := cnt l + 1\<rparr>) uk")
  note r1 = restore_shouldStopBefore[OF ssb]
  show ?thesis
  proof (cases "run_switch c1 (minSeq b) (lastSeq l1) (lastUkey l1) sq kt")
    case (Inl err)
    then show ?thesis
      unfolding run_step_ok[OF p ssb rf] by (simp add: static_view_def r1)
  next
    case sw: (Inr q)
    obtain d c2 where q: "q = (d, c2)" by (cases q)
    note r2 = restore_run_switch[OF sw[unfolded q]]
    show ?thesis
      unfolding run_step_ok[OF p ssb rf] using sw q
      by (cases d) (simp_all add: static_view_def r1 r2 run_append_builder)
  qed
qed

lemma run_loop_static: "static_view (fst (snd (run_loop env b l es))) = static_view b"
proof (induction es arbitrary: b l)
  case Nil
  then show ?case by simp
next
  case (Cons e es)
  obtain r b1 l1 where s1: "run_step env b l e = (r, b1, l1)" by (cases "run_step env b l e")
  have "static_view b1 = static_view b" using run_step_static[of env b l e] s1 by simp
  then show ?case using s1 Cons.IH[of b1 l1] by (cases r) simp_all
qed

lemma run_body_static: "static_view (fst (snd (run_body env b))) = (restore (b_c b), minSeq b, strict b)"
proof -
  let ?b0 = "b\<lparr> b_c := restore (b_c b) \<rparr>"
  obtain r b1 l where rl: "run_loop env ?b0 run_init (entries env) = (r, b1, l)"
    by (cases "run_loop env ?b0 run_init (entries env)")
  have "static_view b1 = static_view ?b0"
    using run_loop_static[of env ?b0 run_init "entries env"] rl by simp
  then have sv: "static_view b1 = (restore (b_c b), minSeq b, strict b)"
    by (simp add: static_view_def restore_idem)
  show ?thesis
    unfolding run_body_def rl using sv
    by (cases r; cases "iterErr env"; cases "handoff env (nHand l)") (simp_all)
qed

lemma run_deferred_static: "static_view (snd (run_deferred e w b)) = static_view b"
  by (simp add: run_deferred_def static_view_def Let_def)

lemma flushLoop_static: "static_view (flushLoop ts b) = static_view b"
  by (simp add: flushLoop_def static_view_def)

lemma run_static: "static_view (snd (snd (run env b))) = (restore (b_c b), minSeq b, strict b)"
proof -
  obtain r b1 l where rb: "run_body env b = (r, b1, l)" by (cases "run_body env b")
  have "static_view b1 = (restore (b_c b), minSeq b, strict b)"
    using run_body_static[of env b] rb by simp
  then show ?thesis
    unfolding run_def rb
    by (simp add: Let_def split: prod.split)
      (metis flushLoop_static run_deferred_static snd_conv)
qed

lemma run_body_view:
  assumes "restore (b_c b) = restore (b_c b')" "minSeq b = minSeq b'" "strict b = strict b'"
  shows "job_view (run_body env b) = job_view (run_body env b')"
proof -
  let ?b0 = "b\<lparr> b_c := restore (b_c b) \<rparr>" and ?b0' = "b'\<lparr> b_c := restore (b_c b') \<rparr>"
  have v: "job_view (run_loop env ?b0 run_init (entries env)) = job_view (run_loop env ?b0' run_init (entries env))"
    by (rule run_loop_view) (simp_all add: assms)
  obtain r b1 l where rl: "run_loop env ?b0 run_init (entries env) = (r, b1, l)"
    by (cases "run_loop env ?b0 run_init (entries env)")
  obtain r' b1' l' where rl': "run_loop env ?b0' run_init (entries env) = (r', b1', l')"
    by (cases "run_loop env ?b0' run_init (entries env)")
  from v rl rl' have eqs: "r' = r" "l' = l" "b_c b1' = b_c b1" "minSeq b1' = minSeq b1" "strict b1' = strict b1"
    by (simp_all add: job_view_def)
  show ?thesis
    unfolding run_body_def rl rl' eqs
    by (cases r; cases "iterErr env"; cases "handoff env (nHand l)") (simp_all add: job_view_def eqs)
qed

subsection \<open>Decoding, appending, the loop over a list\<close>

lemma parseInternalKey_error: "parseInternalKey ik = Inl k \<Longrightarrow> k = ErrCorrupted"
  by (auto simp: parseInternalKey_def Let_def split: if_splits)

lemma parseInternalKey_make: "parseInternalKey (makeInternalKey u sq kt) = Inr (u, sq, kt)"
proof (cases kt)
  case keyTypeDel
  then show ?thesis by (simp add: parseInternalKey_def makeInternalKey_def Let_def)
next
  case keyTypeVal
  have "Suc (sq * 256) mod 256 = 1" "Suc (sq * 256) div 256 = sq" by presburger+
  with keyTypeVal show ?thesis by (simp add: parseInternalKey_def makeInternalKey_def Let_def)
qed

lemma run_append_facts:
  assumes "run_append env b l k v cs ss = (r, b', l')"
  shows "b' = b" "out l' = out l @ [(k, v, cs, ss)]" "hasLastUkey l' = hasLastUkey l"
    "lastUkey l' = lastUkey l" "lastSeq l' = lastSeq l" "lastHasOPrefix l' = lastHasOPrefix l"
    "cnt l' = cnt l"
  using assms by (auto simp: run_append_def Let_def split: if_splits handover.splits)

lemma run_loop_append:
  "run_loop env b l (xs @ ys) =
     (case run_loop env b l xs of
        (None, b1, l1) \<Rightarrow> run_loop env b1 l1 ys
      | (Some err, b1, l1) \<Rightarrow> (Some err, b1, l1))"
proof (induction xs arbitrary: b l)
  case Nil
  then show ?case by simp
next
  case (Cons x xs)
  obtain r b1 l1 where s: "run_step env b l x = (r, b1, l1)" by (cases "run_step env b l x")
  show ?case using s Cons.IH[of b1 l1] by (cases r) simp_all
qed

lemma run_step_out: "\<exists>ys. out (snd (snd (run_step env b l e))) = out l @ ys"
proof (cases "parseInternalKey (fst e)")
  case (Inl k)
  obtain r b' l' where ra: "run_append env (b\<lparr> kerrCnt := kerrCnt b + 1 \<rparr>)
             (l\<lparr> cnt := cnt l + 1, hasLastUkey := False, lastUkey := [], lastSeq := keyMaxSeq \<rparr>)
             (fst e) (snd e) False False = (r, b', l')"
    by (metis prod_cases3)
  show ?thesis
    unfolding run_step_kerr[OF Inl] using run_append_facts(2)[OF ra] ra by (cases "strict b") simp_all
next
  case (Inr p)
  obtain uk sq kt where p: "parseInternalKey (fst e) = Inr (uk, sq, kt)"
    using Inr by (cases p) simp
  obtain ss0 c1 where ssb: "shouldStopBefore (b_c b) (fst e) = (ss0, c1)"
    by (cases "shouldStopBefore (b_c b) (fst e)")
  obtain cs f l1 where rf:
    "run_first (overflowPrefix (opts (c_s (b_c b)))) (l\<lparr>cnt := cnt l + 1\<rparr>) uk = (cs, f, l1)"
    by (cases "run_first (overflowPrefix (opts (c_s (b_c b)))) (l\<lparr>cnt := cnt l + 1\<rparr>) uk")
  have o1: "out l1 = out l" using rf by (auto simp: run_first_def Let_def split: if_splits)
  show ?thesis
  proof (cases "run_switch c1 (minSeq b) (lastSeq l1) (lastUkey l1) sq kt")
    case (Inl err)
    then show ?thesis unfolding run_step_ok[OF p ssb rf] by (simp add: o1)
  next
    case sw: (Inr q)
    obtain d c2 where q: "q = (d, c2)" by (cases q)
    obtain r b' l' where ra: "run_append env (b\<lparr> b_c := c2 \<rparr>) (l1\<lparr> lastSeq := sq \<rparr>)
                 (fst e) (snd e) cs (f \<or> ss0) = (r, b', l')"
      by (metis prod_cases3)
    show ?thesis
      unfolding run_step_ok[OF p ssb rf] using sw q run_append_facts(2)[OF ra] ra
      by (cases d) (simp_all add: o1)
  qed
qed

lemma run_loop_out: "\<exists>ys. out (snd (snd (run_loop env b l es))) = out l @ ys"
proof (induction es arbitrary: b l)
  case Nil
  then show ?case by simp
next
  case (Cons e es)
  obtain r b1 l1 where s: "run_step env b l e = (r, b1, l1)" by (cases "run_step env b l e")
  obtain ys where ys: "out l1 = out l @ ys" using run_step_out[of env b l e] s by auto
  obtain zs where zs: "out (snd (snd (run_loop env b1 l1 es))) = out l1 @ zs"
    using Cons.IH[of b1 l1] by auto
  show ?case using s ys zs by (cases r) auto
qed

lemma run_step_strict: "strict (fst (snd (run_step env b l e))) = strict b"
  using run_step_static[of env b l e] by (simp add: static_view_def)

lemma run_loop_strict: "strict (fst (snd (run_loop env b l es))) = strict b"
  using run_loop_static[of env b l es] by (simp add: static_view_def)

lemma run_step_kerr_lenient:
  assumes "parseInternalKey (fst e) = Inl kerr" "\<not> strict b"
  shows "out (snd (snd (run_step env b l e))) = out l @ [(fst e, snd e, False, False)]"
    "\<not> hasLastUkey (snd (snd (run_step env b l e)))"
    "lastUkey (snd (snd (run_step env b l e))) = []"
    "lastSeq (snd (snd (run_step env b l e))) = keyMaxSeq"
proof -
  obtain r b' l' where ra: "run_append env (b\<lparr> kerrCnt := kerrCnt b + 1 \<rparr>)
             (l\<lparr> cnt := cnt l + 1, hasLastUkey := False, lastUkey := [], lastSeq := keyMaxSeq \<rparr>)
             (fst e) (snd e) False False = (r, b', l')"
    by (metis prod_cases3)
  have rs: "run_step env b l e = (r, b', l')"
    unfolding run_step_kerr[OF assms(1)] using assms(2) ra by simp
  show "out (snd (snd (run_step env b l e))) = out l @ [(fst e, snd e, False, False)]"
    "\<not> hasLastUkey (snd (snd (run_step env b l e)))"
    "lastUkey (snd (snd (run_step env b l e))) = []"
    "lastSeq (snd (snd (run_step env b l e))) = keyMaxSeq"
    using run_append_facts[OF ra] rs by simp_all
qed

lemma run_loop_kerr_lenient:
  "\<not> strict b \<Longrightarrow> e \<in> set es \<Longrightarrow> parseInternalKey (fst e) = Inl kerr \<Longrightarrow>
   fst (run_loop env b l es) = None \<Longrightarrow>
   (fst e, snd e, False, False) \<in> set (out (snd (snd (run_loop env b l es))))"
proof (induction es arbitrary: b l)
  case Nil
  then show ?case by simp
next
  case (Cons x xs)
  obtain r b1 l1 where s: "run_step env b l x = (r, b1, l1)" by (cases "run_step env b l x")
  have r: "r = None" using Cons.prems(4) s by (cases r) simp_all
  have st: "\<not> strict b1" using run_step_strict[of env b l x] s Cons.prems(1) by simp
  have fin: "fst (run_loop env b1 l1 xs) = None" using Cons.prems(4) s r by simp
  show ?case
  proof (cases "e = x")
    case True
    have "out l1 = out l @ [(fst e, snd e, False, False)]"
      using run_step_kerr_lenient(1)[OF Cons.prems(3) Cons.prems(1), of env l] s True by simp
    moreover obtain ys where "out (snd (snd (run_loop env b1 l1 xs))) = out l1 @ ys"
      using run_loop_out[of env b1 l1 xs] by auto
    ultimately show ?thesis using s r by simp
  next
    case False
    then have "e \<in> set xs" using Cons.prems(2) by simp
    from Cons.IH[OF st this Cons.prems(3) fin] show ?thesis using s r by simp
  qed
qed

lemma run_strict_abort:
  assumes kerr: "parseInternalKey (fst e) = Inl kerr" and st: "strict b"
    and es: "entries env = pre @ e # post"
    and pre: "fst (run_loop env (b\<lparr> b_c := restore (b_c b) \<rparr>) run_init pre) = None"
  shows "fst (snd (run env b)) = Some kerr"
proof -
  let ?b0 = "b\<lparr> b_c := restore (b_c b) \<rparr>"
  obtain b1 l1 where p1: "run_loop env ?b0 run_init pre = (None, b1, l1)"
    using pre by (cases "run_loop env ?b0 run_init pre") simp
  have st1: "strict b1" using run_loop_strict[of env ?b0 run_init pre] p1 st by simp
  have "run_step env b1 l1 e = (Some kerr, b1, l1\<lparr>cnt := cnt l1 + 1\<rparr>)"
    unfolding run_step_kerr[OF kerr] using st1 by simp
  then have "run_loop env ?b0 run_init (entries env) = (Some kerr, b1, l1\<lparr>cnt := cnt l1 + 1\<rparr>)"
    unfolding es run_loop_append p1 by simp
  then have rb: "run_body env b = (Some kerr, b1, l1\<lparr>cnt := cnt l1 + 1\<rparr>)"
    by (simp add: run_body_def)
  have np: "\<not> isPanic kerr" using parseInternalKey_error[OF kerr] by (simp add: isPanic_def)
  show ?thesis
    unfolding run_def rb using np by (simp add: run_deferred_def Let_def)
qed

subsection \<open>Entries that decode\<close>

lemma uCompare_eq0: "uCompare a b = 0 \<longleftrightarrow> a = b"
  by (simp add: uCompare_def)

text \<open>
  The \<open>lastSeq\<close> the \<^verbatim>\<open>switch\<close> of \<^verbatim>\<open>run\<close> compares, for an entry of the user key
  \<open>uk\<close>: \<open>keyMaxSeq\<close> at the first occurrence of a user key.
\<close>

definition effLastSeq :: "runLocals \<Rightarrow> bytes \<Rightarrow> nat" where
  "effLastSeq l uk = (if \<not> hasLastUkey l \<or> lastUkey l \<noteq> uk then keyMaxSeq else lastSeq l)"

lemma run_first_facts:
  assumes "run_first oP l uk = (cs, f, l1)"
  shows "hasLastUkey l1" "lastUkey l1 = uk" "out l1 = out l" "cnt l1 = cnt l"
    "lastSeq l1 = effLastSeq l uk" "cs = (\<not> hasLastUkey l \<or> lastUkey l \<noteq> uk)"
  using assms by (auto simp: run_first_def effLastSeq_def uCompare_eq0 Let_def split: if_splits)

lemma run_step_decoded_cases:
  assumes p: "parseInternalKey (fst e) = Inr (uk, sq, kt)"
  obtains
    (abort) err l' where
      "run_switch (snd (shouldStopBefore (b_c b) (fst e))) (minSeq b) (effLastSeq l uk) uk sq kt = Inl err"
      "run_step env b l e = (Some err, b\<lparr> b_c := snd (shouldStopBefore (b_c b) (fst e)) \<rparr>, l')"
      "out l' = out l"
  | (drop) c2 l' where
      "run_switch (snd (shouldStopBefore (b_c b) (fst e))) (minSeq b) (effLastSeq l uk) uk sq kt = Inr (True, c2)"
      "run_step env b l e = (None, b\<lparr> b_c := c2, dropCnt := dropCnt b + 1 \<rparr>, l')"
      "out l' = out l" "hasLastUkey l'" "lastUkey l' = uk" "lastSeq l' = sq"
  | (keep) c2 r l' cs ss where
      "run_switch (snd (shouldStopBefore (b_c b) (fst e))) (minSeq b) (effLastSeq l uk) uk sq kt = Inr (False, c2)"
      "run_step env b l e = (r, b\<lparr> b_c := c2 \<rparr>, l')"
      "out l' = out l @ [(fst e, snd e, cs, ss)]" "hasLastUkey l'" "lastUkey l' = uk" "lastSeq l' = sq"
      "(\<forall>n. handoff env n = Sent) \<longrightarrow> r = None"
proof -
  obtain ss0 c1 where ssb: "shouldStopBefore (b_c b) (fst e) = (ss0, c1)"
    by (cases "shouldStopBefore (b_c b) (fst e)")
  obtain cs f l1 where rf:
    "run_first (overflowPrefix (opts (c_s (b_c b)))) (l\<lparr>cnt := cnt l + 1\<rparr>) uk = (cs, f, l1)"
    by (cases "run_first (overflowPrefix (opts (c_s (b_c b)))) (l\<lparr>cnt := cnt l + 1\<rparr>) uk")
  note ff = run_first_facts[OF rf]
  have ls: "lastSeq l1 = effLastSeq l uk" using ff(5) by (simp add: effLastSeq_def)
  have c1: "snd (shouldStopBefore (b_c b) (fst e)) = c1" using ssb by simp
  show thesis
  proof (cases "run_switch c1 (minSeq b) (effLastSeq l uk) uk sq kt")
    case (Inl err)
    have "run_step env b l e = (Some err, b\<lparr> b_c := c1 \<rparr>, l1)"
      unfolding run_step_ok[OF p ssb rf] ls ff(2) using Inl by simp
    then show thesis using abort[of err l1] Inl c1 ff(3) by simp
  next
    case sw: (Inr q)
    obtain d c2 where q: "q = (d, c2)" by (cases q)
    show thesis
    proof (cases d)
      case True
      have "run_step env b l e = (None, b\<lparr> b_c := c2, dropCnt := dropCnt b + 1 \<rparr>, l1\<lparr> lastSeq := sq \<rparr>)"
        unfolding run_step_ok[OF p ssb rf] ls ff(2) using sw q True by simp
      then show thesis using drop[of c2 "l1\<lparr> lastSeq := sq \<rparr>"] sw q True c1 ff by simp
    next
      case False
      obtain r b' l' where ra: "run_append env (b\<lparr> b_c := c2 \<rparr>) (l1\<lparr> lastSeq := sq \<rparr>)
                 (fst e) (snd e) cs (f \<or> ss0) = (r, b', l')"
        by (metis prod_cases3)
      note af = run_append_facts[OF ra]
      have rs: "run_step env b l e = (r, b\<lparr> b_c := c2 \<rparr>, l')"
        unfolding run_step_ok[OF p ssb rf] ls ff(2) using sw q False ra af(1) by simp
      have sent: "(\<forall>n. handoff env n = Sent) \<longrightarrow> r = None"
        using ra by (auto simp: run_append_def Let_def split: if_splits)
      show thesis
        using keep[of c2 r l' cs "f \<or> ss0"] sw q False c1 rs af ff sent by simp
    qed
  qed
qed

lemma run_step_keep:
  assumes p: "parseInternalKey (fst e) = Inr (uk, sq, kt)"
    and ls: "effLastSeq l uk > minSeq b" and nd: "\<not> (kt = keyTypeDel \<and> sq \<le> minSeq b)"
    and sent: "\<forall>n. handoff env n = Sent"
  obtains b' l' cs ss where "run_step env b l e = (None, b', l')"
    "out l' = out l @ [(fst e, snd e, cs, ss)]" "hasLastUkey l'" "lastUkey l' = uk"
    "lastSeq l' = sq" "minSeq b' = minSeq b"
proof (rule run_step_decoded_cases[OF p, where b=b and l=l and env=env], goal_cases)
  case (1 err l')
  then show ?case using ls nd by (simp add: run_switch_def)
next
  case (2 c2 l')
  then show ?case using ls nd by (simp add: run_switch_def)
next
  case (3 c2 r l' cs ss)
  then show ?case using that[of "b\<lparr> b_c := c2 \<rparr>" l' cs ss] sent by simp
qed

lemma run_step_superseded:
  assumes p: "parseInternalKey (fst e) = Inr (uk, sq, kt)"
    and ls: "effLastSeq l uk \<le> minSeq b"
  obtains b' l' where "run_step env b l e = (None, b', l')"
    "out l' = out l" "hasLastUkey l'" "lastUkey l' = uk" "lastSeq l' = sq" "minSeq b' = minSeq b"
proof (rule run_step_decoded_cases[OF p, where b=b and l=l and env=env], goal_cases)
  case (1 err l')
  then show ?case using ls by (simp add: run_switch_def)
next
  case (2 c2 l')
  then show ?case using that[of "b\<lparr> b_c := c2, dropCnt := dropCnt b + 1 \<rparr>" l'] by simp
next
  case (3 c2 r l' cs ss)
  then show ?case using ls by (simp add: run_switch_def)
qed

lemma run_body_finish:
  assumes "run_loop env (b\<lparr> b_c := restore (b_c b) \<rparr>) run_init (entries env) = (None, b', l)"
    "iterErr env = None" "\<forall>n. handoff env n = Sent"
  shows "fst (run_body env b) = None" "out (snd (snd (run_body env b))) = out l"
  using assms by (simp_all add: run_body_def)

lemma scenario_5432:
  assumes m: "minSeq b = 4"
    and es: "entries env = [(makeInternalKey u 5 keyTypeVal, v5), (makeInternalKey u 4 keyTypeVal, v4),
                            (makeInternalKey u 3 keyTypeDel, v3), (makeInternalKey u 2 keyTypeVal, v2)]"
    and ie: "iterErr env = None" and sent: "\<forall>n. handoff env n = Sent"
  shows "fst (run_body env b) = None
       \<and> map (\<lambda>x. (fst x, fst (snd x))) (out (snd (snd (run_body env b))))
           = [(makeInternalKey u 5 keyTypeVal, v5), (makeInternalKey u 4 keyTypeVal, v4)]"
proof -
  let ?b0 = "b\<lparr> b_c := restore (b_c b) \<rparr>"
  let ?e1 = "(makeInternalKey u 5 keyTypeVal, v5)" and ?e2 = "(makeInternalKey u 4 keyTypeVal, v4)"
  let ?e3 = "(makeInternalKey u 3 keyTypeDel, v3)" and ?e4 = "(makeInternalKey u 2 keyTypeVal, v2)"
  have m0: "minSeq ?b0 = 4" using m by simp
  have kms: "keyMaxSeq > 4" by (simp add: keyMaxSeq_def)
  have p1: "parseInternalKey (fst ?e1) = Inr (u, 5, keyTypeVal)" by (simp add: parseInternalKey_make)
  have p2: "parseInternalKey (fst ?e2) = Inr (u, 4, keyTypeVal)" by (simp add: parseInternalKey_make)
  have p3: "parseInternalKey (fst ?e3) = Inr (u, 3, keyTypeDel)" by (simp add: parseInternalKey_make)
  have p4: "parseInternalKey (fst ?e4) = Inr (u, 2, keyTypeVal)" by (simp add: parseInternalKey_make)
  have ls1: "effLastSeq run_init u > minSeq ?b0"
    using m kms by (simp add: effLastSeq_def run_init_def)
  have nd1: "\<not> (keyTypeVal = keyTypeDel \<and> 5 \<le> minSeq ?b0)" by simp
  obtain b1 l1 cs1 ss1 where s1: "run_step env ?b0 run_init ?e1 = (None, b1, l1)"
    and o1: "out l1 = out run_init @ [(fst ?e1, snd ?e1, cs1, ss1)]"
    and f1: "hasLastUkey l1" "lastUkey l1 = u" "lastSeq l1 = 5" and m1: "minSeq b1 = minSeq ?b0"
    using run_step_keep[OF p1 ls1 nd1 sent] by blast
  have ls2: "effLastSeq l1 u > minSeq b1" using m m1 f1 by (simp add: effLastSeq_def)
  have nd2: "\<not> (keyTypeVal = keyTypeDel \<and> 4 \<le> minSeq b1)" by simp
  obtain b2 l2 cs2 ss2 where s2: "run_step env b1 l1 ?e2 = (None, b2, l2)"
    and o2: "out l2 = out l1 @ [(fst ?e2, snd ?e2, cs2, ss2)]"
    and f2: "hasLastUkey l2" "lastUkey l2 = u" "lastSeq l2 = 4" and m2: "minSeq b2 = minSeq b1"
    using run_step_keep[OF p2 ls2 nd2 sent] by blast
  have ls3: "effLastSeq l2 u \<le> minSeq b2" using m m1 m2 f2 by (simp add: effLastSeq_def)
  obtain b3 l3 where s3: "run_step env b2 l2 ?e3 = (None, b3, l3)"
    and o3: "out l3 = out l2"
    and f3: "hasLastUkey l3" "lastUkey l3 = u" "lastSeq l3 = 3" and m3: "minSeq b3 = minSeq b2"
    using run_step_superseded[OF p3 ls3] by blast
  have ls4: "effLastSeq l3 u \<le> minSeq b3" using m m1 m2 m3 f3 by (simp add: effLastSeq_def)
  obtain b4 l4 where s4: "run_step env b3 l3 ?e4 = (None, b4, l4)"
    and o4: "out l4 = out l3"
    using run_step_superseded[OF p4 ls4] by blast
  have rl: "run_loop env ?b0 run_init (entries env) = (None, b4, l4)"
    unfolding es using s1 s2 s3 s4 by simp
  have "out l4 = [(fst ?e1, snd ?e1, cs1, ss1), (fst ?e2, snd ?e2, cs2, ss2)]"
    using o1 o2 o3 o4 by (simp add: run_init_def)
  then show ?thesis
    using run_body_finish[OF rl ie sent] by simp
qed

subsection \<open>The cursors of baseLevelForKey\<close>

text \<open>A table covers a user key that lies in its user-key range.\<close>

definition covers :: "tFile \<Rightarrow> bytes \<Rightarrow> bool" where
  "covers t u = (ukey (imin t) \<le> u \<and> u \<le> ukey (imax t))"

text \<open>
  The invariant of a level from 1 on: the tables are disjoint and in order, each ending
  before the next begins.
\<close>

definition tables_sorted :: "tFile list \<Rightarrow> bool" where
  "tables_sorted ts = sorted_wrt (\<lambda>a b. ukey (imax a) < ukey (imin b)) ts"

text \<open>
  The invariant of the cursors \<open>tPtrs\<close> against a user key \<open>u\<close>: one cursor per level,
  and every table before a cursor ends below \<open>u\<close>.
\<close>

definition ptrs_ok :: "tFile list list \<Rightarrow> nat list \<Rightarrow> bytes \<Rightarrow> bool" where
  "ptrs_ok lv ptrs u =
     (length ptrs = length lv \<and>
      (\<forall>L j. L < length lv \<longrightarrow> j < ptrs ! L \<longrightarrow> j < length (lv ! L) \<longrightarrow> ukey (imax (lv ! L ! j)) < u))"

lemma uCompare_le0: "uCompare a b \<le> 0 \<longleftrightarrow> a \<le> b"
  by (auto simp: uCompare_def)

lemma uCompare_ge0: "uCompare a b \<ge> 0 \<longleftrightarrow> b \<le> a"
  by (auto simp: uCompare_def)

lemma ptrs_ok_mono: "ptrs_ok lv ptrs u \<Longrightarrow> u \<le> u' \<Longrightarrow> ptrs_ok lv ptrs u'"
  unfolding ptrs_ok_def by (meson order_less_le_trans)

lemma baseLevel_scan_bounds:
  "baseLevel_scan u ts p = (r, p') \<Longrightarrow>
   p \<le> p' \<and> p' \<le> p + length ts \<and> (\<forall>i. i < p' - p \<longrightarrow> ukey (imax (ts ! i)) < u)"
proof (induction ts arbitrary: p)
  case Nil
  then show ?case by simp
next
  case (Cons t ts)
  show ?case
  proof (cases "uCompare u (ukey (imax t)) \<le> 0")
    case True
    then show ?thesis using Cons.prems by simp
  next
    case False
    then have gt: "ukey (imax t) < u" by (simp add: uCompare_le0)
    from False Cons.prems have rec: "baseLevel_scan u ts (p + 1) = (r, p')" by simp
    from Cons.IH[OF rec] have b: "p + 1 \<le> p'" "p' \<le> p + 1 + length ts"
      and a: "\<forall>i. i < p' - (p + 1) \<longrightarrow> ukey (imax (ts ! i)) < u" by auto
    have "ukey (imax ((t # ts) ! i)) < u" if "i < p' - p" for i
    proof (cases i)
      case 0
      then show ?thesis using gt by simp
    next
      case (Suc k)
      then have "k < p' - (p + 1)" using that by simp
      then show ?thesis using a Suc by simp
    qed
    then show ?thesis using b by simp
  qed
qed

lemma baseLevel_scan_covered:
  "tables_sorted ts \<Longrightarrow> t \<in> set ts \<Longrightarrow> covers t u \<Longrightarrow> fst (baseLevel_scan u ts p)"
proof (induction ts arbitrary: p)
  case Nil
  then show ?case by simp
next
  case (Cons x xs)
  show ?case
  proof (cases "uCompare u (ukey (imax x)) \<le> 0")
    case True
    then have le: "u \<le> ukey (imax x)" by (simp add: uCompare_le0)
    have "ukey (imin x) \<le> u"
    proof (cases "t = x")
      case True
      then show ?thesis using Cons.prems(3) by (simp add: covers_def)
    next
      case False
      then have "t \<in> set xs" using Cons.prems(2) by simp
      then have "ukey (imax x) < ukey (imin t)" using Cons.prems(1) by (auto simp: tables_sorted_def)
      moreover have "ukey (imin t) \<le> u" using Cons.prems(3) by (simp add: covers_def)
      ultimately show ?thesis using le by order
    qed
    then show ?thesis using True by (simp add: uCompare_ge0)
  next
    case False
    then have gt: "ukey (imax x) < u" by (simp add: uCompare_le0)
    then have "t \<noteq> x" using Cons.prems(3) by (auto simp: covers_def)
    then have "t \<in> set xs" using Cons.prems(2) by simp
    moreover have "tables_sorted xs" using Cons.prems(1) by (simp add: tables_sorted_def)
    ultimately show ?thesis using Cons.IH Cons.prems(3) False by simp
  qed
qed

lemma baseLevel_loop_length:
  "length ptrs = length lv \<Longrightarrow>
   \<exists>r ptrs'. baseLevel_loop lv u level ptrs = Inr (r, ptrs') \<and> length ptrs' = length lv"
proof (induction lv u level ptrs rule: baseLevel_loop.induct)
  case (1 lv u level ptrs)
  show ?case
  proof (cases "level < length lv")
    case False
    then show ?thesis using "1.prems" by (auto simp: baseLevel_loop.simps[of lv u level ptrs])
  next
    case True
    then have lp: "level < length ptrs" using "1.prems" by simp
    obtain r p where sc: "baseLevel_scan u (drop (ptrs ! level) (lv ! level)) (ptrs ! level) = (r, p)"
      by (cases "baseLevel_scan u (drop (ptrs ! level) (lv ! level)) (ptrs ! level)")
    show ?thesis
    proof (cases r)
      case True
      then show ?thesis using \<open>level < length lv\<close> lp sc "1.prems"
        by (auto simp: baseLevel_loop.simps[of lv u level ptrs])
    next
      case False
      have "\<exists>r' ptrs'. baseLevel_loop lv u (level + 1) (ptrs[level := p]) = Inr (r', ptrs')
              \<and> length ptrs' = length lv"
        using "1.IH"[of r p] \<open>level < length lv\<close> lp sc False "1.prems" by simp
      then show ?thesis using \<open>level < length lv\<close> lp sc False
        by (simp add: baseLevel_loop.simps[of lv u level ptrs])
    qed
  qed
qed

lemma ptrs_ok_update:
  assumes ok: "ptrs_ok lv ptrs u" and L: "level < length lv"
    and sc: "baseLevel_scan u (drop (ptrs ! level) (lv ! level)) (ptrs ! level) = (r, p)"
  shows "ptrs_ok lv (ptrs[level := p]) u"
proof -
  note b = baseLevel_scan_bounds[OF sc]
  have len: "length ptrs = length lv" using ok by (simp add: ptrs_ok_def)
  have "ukey (imax (lv ! K ! j)) < u"
    if K: "K < length lv" and j: "j < ptrs[level := p] ! K" "j < length (lv ! K)" for K j
  proof (cases "K = level")
    case False
    then show ?thesis using ok K j by (simp add: ptrs_ok_def)
  next
    case True
    then have jp: "j < p" using j L len by simp
    show ?thesis
    proof (cases "j < ptrs ! level")
      case True
      then show ?thesis using ok K j \<open>K = level\<close> by (simp add: ptrs_ok_def)
    next
      case False
      then have "j - ptrs ! level < p - ptrs ! level" using jp by simp
      then have "ukey (imax (drop (ptrs ! level) (lv ! level) ! (j - ptrs ! level))) < u"
        using b by blast
      moreover have "drop (ptrs ! level) (lv ! level) ! (j - ptrs ! level) = lv ! level ! j"
        using False j \<open>K = level\<close> by simp
      ultimately show ?thesis using \<open>K = level\<close> by simp
    qed
  qed
  then show ?thesis using len by (simp add: ptrs_ok_def)
qed

lemma baseLevel_loop_ok:
  "ptrs_ok lv ptrs u \<Longrightarrow> baseLevel_loop lv u level ptrs = Inr (r, ptrs') \<Longrightarrow> ptrs_ok lv ptrs' u"
proof (induction lv u level ptrs rule: baseLevel_loop.induct)
  case (1 lv u level ptrs)
  show ?case
  proof (cases "level < length lv")
    case False
    then show ?thesis using "1.prems" by (simp add: baseLevel_loop.simps[of lv u level ptrs])
  next
    case True
    then have lp: "level < length ptrs" using "1.prems"(1) by (simp add: ptrs_ok_def)
    obtain r0 p where sc: "baseLevel_scan u (drop (ptrs ! level) (lv ! level)) (ptrs ! level) = (r0, p)"
      by (cases "baseLevel_scan u (drop (ptrs ! level) (lv ! level)) (ptrs ! level)")
    note up = ptrs_ok_update[OF "1.prems"(1) True sc]
    show ?thesis
    proof (cases r0)
      case True
      then show ?thesis using \<open>level < length lv\<close> lp sc "1.prems"(2) up
        by (simp add: baseLevel_loop.simps[of lv u level ptrs])
    next
      case False
      have "baseLevel_loop lv u (level + 1) (ptrs[level := p]) = Inr (r, ptrs')"
        using \<open>level < length lv\<close> lp sc False "1.prems"(2)
        by (simp add: baseLevel_loop.simps[of lv u level ptrs])
      then show ?thesis
        using "1.IH"[of r0 p] \<open>level < length lv\<close> lp sc False up by simp
    qed
  qed
qed

lemma baseLevel_loop_covered:
  "ptrs_ok lv ptrs u \<Longrightarrow> baseLevel_loop lv u level ptrs = Inr (r, ptrs') \<Longrightarrow>
   level \<le> L \<Longrightarrow> L < length lv \<Longrightarrow> tables_sorted (lv ! L) \<Longrightarrow> t \<in> set (lv ! L) \<Longrightarrow>
   covers t u \<Longrightarrow> \<not> r"
proof (induction lv u level ptrs rule: baseLevel_loop.induct)
  case (1 lv u level ptrs)
  have lv: "level < length lv" using "1.prems"(3,4) by simp
  then have lp: "level < length ptrs" using "1.prems"(1) by (simp add: ptrs_ok_def)
  obtain r0 p where sc: "baseLevel_scan u (drop (ptrs ! level) (lv ! level)) (ptrs ! level) = (r0, p)"
    by (cases "baseLevel_scan u (drop (ptrs ! level) (lv ! level)) (ptrs ! level)")
  note up = ptrs_ok_update[OF "1.prems"(1) lv sc]
  show ?case
  proof (cases r0)
    case True
    then show ?thesis using lv lp sc "1.prems"(2)
      by (simp add: baseLevel_loop.simps[of lv u level ptrs])
  next
    case False
    have rec: "baseLevel_loop lv u (level + 1) (ptrs[level := p]) = Inr (r, ptrs')"
      using lv lp sc False "1.prems"(2)
      by (simp add: baseLevel_loop.simps[of lv u level ptrs])
    have "level \<noteq> L"
    proof
      assume eq: "level = L"
      obtain j where j: "j < length (lv ! L)" "lv ! L ! j = t"
        using "1.prems"(6) by (auto simp: in_set_conv_nth)
      have "\<not> j < ptrs ! L"
      proof
        assume "j < ptrs ! L"
        then have "ukey (imax t) < u" using "1.prems"(1,4) j by (auto simp: ptrs_ok_def)
        then show False using "1.prems"(7) by (auto simp: covers_def dest: leD)
      qed
      then have "drop (ptrs ! L) (lv ! L) ! (j - ptrs ! L) = t"
        "j - ptrs ! L < length (drop (ptrs ! L) (lv ! L))"
        using j by simp_all
      then have "t \<in> set (drop (ptrs ! L) (lv ! L))"
        using nth_mem by blast
      moreover have "tables_sorted (drop (ptrs ! L) (lv ! L))"
        using "1.prems"(5) by (simp add: tables_sorted_def sorted_wrt_drop)
      ultimately have "fst (baseLevel_scan u (drop (ptrs ! L) (lv ! L)) (ptrs ! L))"
        using baseLevel_scan_covered "1.prems"(7) by blast
      then show False using sc False eq by simp
    qed
    then have "level + 1 \<le> L" using "1.prems"(3) by simp
    then show ?thesis
      using "1.IH"[of r0 p] lv lp sc False up rec "1.prems"(4,5,6,7) by simp
  qed
qed

definition cursor_ok :: "tableCompactionBuilder \<Rightarrow> bytes \<Rightarrow> bool" where
  "cursor_ok b u = ptrs_ok (levels (c_v (b_c b))) (tPtrs (b_c b)) u"

lemma shouldStopBefore_tPtrs:
  "tPtrs (snd (shouldStopBefore c ik)) = tPtrs c" "c_v (snd (shouldStopBefore c ik)) = c_v c"
  "sourceLevel (snd (shouldStopBefore c ik)) = sourceLevel c"
  by (simp_all add: shouldStopBefore_def Let_def split: prod.split)

lemma parseInternalKey_ukey: "parseInternalKey ik = Inr (uk, sq, kt) \<Longrightarrow> uk = ukey ik"
  by (auto simp: parseInternalKey_def Let_def split: if_splits)

lemma run_switch_cursor:
  assumes ok: "ptrs_ok (levels (c_v c)) (tPtrs c) u"
  shows "\<exists>d c2. run_switch c m ls u sq kt = Inr (d, c2)
           \<and> ptrs_ok (levels (c_v c2)) (tPtrs c2) u \<and> c_v c2 = c_v c \<and> sourceLevel c2 = sourceLevel c"
proof -
  have len: "length (tPtrs c) = length (levels (c_v c))" using ok by (simp add: ptrs_ok_def)
  obtain r ptrs' where bl: "baseLevel_loop (levels (c_v c)) u (sourceLevel c + 2) (tPtrs c) = Inr (r, ptrs')"
    using baseLevel_loop_length[OF len] by blast
  have ok': "ptrs_ok (levels (c_v c)) ptrs' u" using baseLevel_loop_ok[OF ok bl] .
  show ?thesis
    using ok ok' bl by (auto simp: run_switch_def baseLevelForKey_def)
qed

lemma run_step_c_v:
  "c_v (b_c (fst (snd (run_step env b l e)))) = c_v (b_c b)"
  "sourceLevel (b_c (fst (snd (run_step env b l e)))) = sourceLevel (b_c b)"
  "minSeq (fst (snd (run_step env b l e))) = minSeq b"
proof -
  have "static_view (fst (snd (run_step env b l e))) = static_view b" by (rule run_step_static)
  then have r: "restore (b_c (fst (snd (run_step env b l e)))) = restore (b_c b)"
    and m: "minSeq (fst (snd (run_step env b l e))) = minSeq b"
    by (simp_all add: static_view_def)
  have "c_v (restore (b_c (fst (snd (run_step env b l e))))) = c_v (restore (b_c b))"
    "sourceLevel (restore (b_c (fst (snd (run_step env b l e))))) = sourceLevel (restore (b_c b))"
    using r by simp_all
  then show "c_v (b_c (fst (snd (run_step env b l e)))) = c_v (b_c b)"
    "sourceLevel (b_c (fst (snd (run_step env b l e)))) = sourceLevel (b_c b)"
    by (simp_all add: restore_def)
  show "minSeq (fst (snd (run_step env b l e))) = minSeq b" by (rule m)
qed

lemma run_step_cursor:
  assumes ok: "cursor_ok b (ukey (fst e))"
  shows "cursor_ok (fst (snd (run_step env b l e))) (ukey (fst e))"
proof (cases "parseInternalKey (fst e)")
  case (Inl k)
  have "b_c (fst (snd (run_step env b l e))) = b_c b"
    unfolding run_step_kerr[OF Inl] by (simp add: run_append_builder)
  then show ?thesis using ok by (simp add: cursor_ok_def)
next
  case (Inr q)
  obtain uk sq kt where p: "parseInternalKey (fst e) = Inr (uk, sq, kt)"
    using Inr by (cases q) simp
  have uk: "uk = ukey (fst e)" using parseInternalKey_ukey[OF p] .
  let ?c1 = "snd (shouldStopBefore (b_c b) (fst e))"
  have ok1: "ptrs_ok (levels (c_v ?c1)) (tPtrs ?c1) uk"
    using ok by (simp add: cursor_ok_def shouldStopBefore_tPtrs uk)
  obtain d c2 where sw: "run_switch ?c1 (minSeq b) (effLastSeq l uk) uk sq kt = Inr (d, c2)"
    and ok2: "ptrs_ok (levels (c_v c2)) (tPtrs c2) uk"
    using run_switch_cursor[OF ok1] by blast
  show ?thesis
  proof (rule run_step_decoded_cases[OF p, where b=b and l=l and env=env], goal_cases)
    case (1 err l')
    then show ?case using sw by simp
  next
    case (2 c2' l')
    then show ?case using sw ok2 uk by (simp add: cursor_ok_def)
  next
    case (3 c2' r l' cs ss)
    then show ?case using sw ok2 uk by (simp add: cursor_ok_def)
  qed
qed

lemma cursor_ok_mono: "cursor_ok b u \<Longrightarrow> u \<le> u' \<Longrightarrow> cursor_ok b u'"
  unfolding cursor_ok_def by (rule ptrs_ok_mono)

lemma run_loop_cursor:
  "sorted (map (\<lambda>e. ukey (fst e)) es) \<Longrightarrow> cursor_ok b u0 \<Longrightarrow>
   (\<forall>e \<in> set es. u0 \<le> ukey (fst e)) \<Longrightarrow> (\<forall>e \<in> set es. ukey (fst e) \<le> u1) \<Longrightarrow> u0 \<le> u1 \<Longrightarrow>
   cursor_ok (fst (snd (run_loop env b l es))) u1"
proof (induction es arbitrary: b l u0)
  case Nil
  then show ?case using cursor_ok_mono by simp
next
  case (Cons e es)
  obtain r b1 l1 where s: "run_step env b l e = (r, b1, l1)" by (cases "run_step env b l e")
  have "cursor_ok b (ukey (fst e))" using Cons.prems(2,3) cursor_ok_mono by simp
  then have ok1: "cursor_ok b1 (ukey (fst e))" using run_step_cursor[of b e env l] s by simp
  show ?case
  proof (cases r)
    case (Some err)
    then show ?thesis using s ok1 Cons.prems(4) cursor_ok_mono by simp
  next
    case None
    have "cursor_ok (fst (snd (run_loop env b1 l1 es))) u1"
      using Cons.IH[of b1 "ukey (fst e)" l1] Cons.prems ok1 by simp
    then show ?thesis using s None by simp
  qed
qed

lemma run_loop_c_v:
  "c_v (b_c (fst (snd (run_loop env b l es)))) = c_v (b_c b)"
  "sourceLevel (b_c (fst (snd (run_loop env b l es)))) = sourceLevel (b_c b)"
  "minSeq (fst (snd (run_loop env b l es))) = minSeq b"
proof -
  have "static_view (fst (snd (run_loop env b l es))) = static_view b" by (rule run_loop_static)
  then have r: "restore (b_c (fst (snd (run_loop env b l es)))) = restore (b_c b)"
    and m: "minSeq (fst (snd (run_loop env b l es))) = minSeq b"
    by (simp_all add: static_view_def)
  have "c_v (restore (b_c (fst (snd (run_loop env b l es))))) = c_v (restore (b_c b))"
    "sourceLevel (restore (b_c (fst (snd (run_loop env b l es))))) = sourceLevel (restore (b_c b))"
    using r by simp_all
  then show "c_v (b_c (fst (snd (run_loop env b l es)))) = c_v (b_c b)"
    "sourceLevel (b_c (fst (snd (run_loop env b l es)))) = sourceLevel (b_c b)"
    by (simp_all add: restore_def)
  show "minSeq (fst (snd (run_loop env b l es))) = minSeq b" by (rule m)
qed

text \<open>After a loop that ran to its end, the locals describe the last entry.\<close>

lemma run_loop_last:
  assumes ne: "es \<noteq> []" and rl: "run_loop env b l es = (None, b', l')"
  shows "case parseInternalKey (fst (last es)) of
           Inl k \<Rightarrow> \<not> hasLastUkey l'
         | Inr (u', s', kt') \<Rightarrow> hasLastUkey l' \<and> lastUkey l' = u' \<and> lastSeq l' = s'"
proof -
  obtain xs x where es: "es = xs @ [x]" using ne by (metis append_butlast_last_id)
  obtain r1 b1 l1 where p1: "run_loop env b l xs = (r1, b1, l1)" by (cases "run_loop env b l xs")
  have r1: "r1 = None" using rl unfolding es run_loop_append p1 by (cases r1) simp_all
  have st: "run_step env b1 l1 x = (None, b', l')"
    using rl unfolding es run_loop_append p1 r1 by (cases "run_step env b1 l1 x") (auto split: option.splits)
  show ?thesis
  proof (cases "parseInternalKey (fst x)")
    case (Inl k)
    have ns: "\<not> strict b1" using st unfolding run_step_kerr[OF Inl] by (auto split: if_splits)
    show ?thesis using run_step_kerr_lenient(2)[OF Inl ns, of env l1] st Inl es by simp
  next
    case (Inr q)
    obtain uk sq kt where p: "parseInternalKey (fst x) = Inr (uk, sq, kt)"
      using Inr by (cases q) simp
    show ?thesis
    proof (rule run_step_decoded_cases[OF p, where b=b1 and l=l1 and env=env], goal_cases)
      case (1 err l'')
      then show ?case using st by simp
    next
      case (2 c2 l'')
      then show ?case using st p es by simp
    next
      case (3 c2 r l'' cs ss)
      then show ?case using st p es by simp
    qed
  qed
qed

lemma run_body_loop:
  assumes "fst (run_body env b) = None"
  obtains b' l' where
    "run_loop env (b\<lparr> b_c := restore (b_c b) \<rparr>) run_init (entries env) = (None, b', l')"
    "out (snd (snd (run_body env b))) = out l'"
proof -
  obtain r b' l' where rl:
    "run_loop env (b\<lparr> b_c := restore (b_c b) \<rparr>) run_init (entries env) = (r, b', l')"
    by (metis prod_cases3)
  have r: "r = None" using assms unfolding run_body_def rl by (cases r) simp_all
  have "out (snd (snd (run_body env b))) = out l'"
    unfolding run_body_def rl r
    by (cases "iterErr env"; cases "pending l'"; cases "handoff env (nHand l')") simp_all
  then show thesis using that rl r by simp
qed

lemma superseded_marker:
  assumes m: "s1 \<le> minSeq b" "minSeq b < keyMaxSeq"
    and es: "entries env = [(makeInternalKey u s1 keyTypeVal, v1), (makeInternalKey u s2 keyTypeDel, v2)]"
    and ie: "iterErr env = None" and sent: "\<forall>n. handoff env n = Sent"
  shows "fst (run_body env b) = None
       \<and> map (\<lambda>x. (fst x, fst (snd x))) (out (snd (snd (run_body env b))))
           = [(makeInternalKey u s1 keyTypeVal, v1)]"
proof -
  let ?b0 = "b\<lparr> b_c := restore (b_c b) \<rparr>"
  let ?e1 = "(makeInternalKey u s1 keyTypeVal, v1)" and ?e2 = "(makeInternalKey u s2 keyTypeDel, v2)"
  have p1: "parseInternalKey (fst ?e1) = Inr (u, s1, keyTypeVal)" by (simp add: parseInternalKey_make)
  have p2: "parseInternalKey (fst ?e2) = Inr (u, s2, keyTypeDel)" by (simp add: parseInternalKey_make)
  have ls1: "effLastSeq run_init u > minSeq ?b0"
    using m by (simp add: effLastSeq_def run_init_def)
  have nd1: "\<not> (keyTypeVal = keyTypeDel \<and> s1 \<le> minSeq ?b0)" by simp
  obtain b1 l1 cs1 ss1 where s1: "run_step env ?b0 run_init ?e1 = (None, b1, l1)"
    and o1: "out l1 = out run_init @ [(fst ?e1, snd ?e1, cs1, ss1)]"
    and f1: "hasLastUkey l1" "lastUkey l1 = u" "lastSeq l1 = s1" and m1: "minSeq b1 = minSeq ?b0"
    using run_step_keep[OF p1 ls1 nd1 sent] by blast
  have ls2: "effLastSeq l1 u \<le> minSeq b1" using m m1 f1 by (simp add: effLastSeq_def)
  obtain b2 l2 where s2: "run_step env b1 l1 ?e2 = (None, b2, l2)"
    and o2: "out l2 = out l1"
    using run_step_superseded[OF p2 ls2] by blast
  have rl: "run_loop env ?b0 run_init (entries env) = (None, b2, l2)"
    unfolding es using s1 s2 by simp
  have "out l2 = [(fst ?e1, snd ?e1, cs1, ss1)]"
    using o1 o2 by (simp add: run_init_def)
  then show ?thesis
    using run_body_finish[OF rl ie sent] by simp
qed

subsection \<open>Runs that meet no error\<close>

lemma run_append_result:
  "fst (run_append env b l k v cs ss) = None
   \<or> (\<exists>x. fst (run_append env b l k v cs ss) = Some x
          \<and> (handoff env (nHand l) = WriterError x
              \<or> (x = ErrTransactExiting \<and> handoff env (nHand l) = Closing)))"
  by (cases "handoff env (nHand l)") (simp_all add: run_append_def Let_def)

lemma run_append_sent:
  "handoff env (nHand l) = Sent \<Longrightarrow> fst (run_append env b l k v cs ss) = None"
  by (simp add: run_append_def Let_def)

text \<open>One cursor per level: \<^verbatim>\<open>c.tPtrs[level]\<close> is in range in \<^verbatim>\<open>baseLevelForKey\<close>.\<close>

definition lens_ok :: "tableCompactionBuilder \<Rightarrow> bool" where
  "lens_ok b = (length (tPtrs (b_c b)) = length (levels (c_v (b_c b))))"

lemma run_switch_length:
  assumes len: "length (tPtrs c) = length (levels (c_v c))"
  shows "\<exists>d c2. run_switch c m ls u sq kt = Inr (d, c2)
           \<and> length (tPtrs c2) = length (levels (c_v c2)) \<and> c_v c2 = c_v c"
proof -
  obtain r ptrs' where bl: "baseLevel_loop (levels (c_v c)) u (sourceLevel c + 2) (tPtrs c) = Inr (r, ptrs')"
    and l': "length ptrs' = length (levels (c_v c))"
    using baseLevel_loop_length[OF len] by blast
  show ?thesis
    using len bl l' by (auto simp: run_switch_def baseLevelForKey_def)
qed

lemma run_step_lenient_total:
  assumes ns: "\<not> strict b" and sent: "\<forall>n. handoff env n = Sent" and ok: "lens_ok b"
  shows "fst (run_step env b l e) = None" "lens_ok (fst (snd (run_step env b l e)))"
proof -
  have "fst (run_step env b l e) = None \<and> lens_ok (fst (snd (run_step env b l e)))"
  proof (cases "parseInternalKey (fst e)")
    case (Inl k)
    show ?thesis
      unfolding run_step_kerr[OF Inl] using ns ok sent
      by (simp add: run_append_sent run_append_builder lens_ok_def)
  next
    case (Inr q)
    obtain uk sq kt where p: "parseInternalKey (fst e) = Inr (uk, sq, kt)"
      using Inr by (cases q) simp
    let ?c1 = "snd (shouldStopBefore (b_c b) (fst e))"
    have len1: "length (tPtrs ?c1) = length (levels (c_v ?c1))"
      using ok by (simp add: lens_ok_def shouldStopBefore_tPtrs)
    obtain d c2 where sw: "run_switch ?c1 (minSeq b) (effLastSeq l uk) uk sq kt = Inr (d, c2)"
      and len2: "length (tPtrs c2) = length (levels (c_v c2))"
      using run_switch_length[OF len1] by blast
    show ?thesis
    proof (rule run_step_decoded_cases[OF p, where b=b and l=l and env=env], goal_cases)
      case (1 err l')
      then show ?case using sw by simp
    next
      case (2 c2' l')
      then show ?case using sw len2 by (simp add: lens_ok_def)
    next
      case (3 c2' r l' cs ss)
      then show ?case using sw len2 sent by (simp add: lens_ok_def)
    qed
  qed
  then show "fst (run_step env b l e) = None" "lens_ok (fst (snd (run_step env b l e)))"
    by simp_all
qed

lemma run_loop_lenient_total:
  "\<not> strict b \<Longrightarrow> \<forall>n. handoff env n = Sent \<Longrightarrow> lens_ok b \<Longrightarrow> fst (run_loop env b l es) = None"
proof (induction es arbitrary: b l)
  case Nil
  then show ?case by simp
next
  case (Cons e es)
  obtain r b1 l1 where s: "run_step env b l e = (r, b1, l1)" by (cases "run_step env b l e")
  have r: "r = None" and ok1: "lens_ok b1"
    using run_step_lenient_total[OF Cons.prems, of l e] s by simp_all
  have ns1: "\<not> strict b1" using run_step_strict[of env b l e] s Cons.prems(1) by simp
  show ?case using s r Cons.IH[OF ns1 Cons.prems(2) ok1, of l1] by simp
qed

lemma run_step_kerr_lenient_error:
  assumes "parseInternalKey (fst e) = Inl kerr" "\<not> strict b"
  shows "fst (run_step env b l e) = None
       \<or> (\<exists>x. fst (run_step env b l e) = Some x
              \<and> (handoff env (nHand l) = WriterError x
                  \<or> (x = ErrTransactExiting \<and> handoff env (nHand l) = Closing)))"
    "fst (snd (run_step env b l e)) = b\<lparr> kerrCnt := kerrCnt b + 1 \<rparr>"
    "handoff env (nHand l) = Sent \<Longrightarrow> fst (run_step env b l e) = None"
proof -
  let ?l = "l\<lparr> cnt := cnt l + 1, hasLastUkey := False, lastUkey := [], lastSeq := keyMaxSeq \<rparr>"
  have eq: "run_step env b l e = run_append env (b\<lparr> kerrCnt := kerrCnt b + 1 \<rparr>) ?l (fst e) (snd e) False False"
    unfolding run_step_kerr[OF assms(1)] using assms(2) by simp
  show "fst (run_step env b l e) = None
       \<or> (\<exists>x. fst (run_step env b l e) = Some x
              \<and> (handoff env (nHand l) = WriterError x
                  \<or> (x = ErrTransactExiting \<and> handoff env (nHand l) = Closing)))"
    unfolding eq using run_append_result[of env "b\<lparr> kerrCnt := kerrCnt b + 1 \<rparr>" ?l "fst e" "snd e" False False]
    by simp
  show "fst (snd (run_step env b l e)) = b\<lparr> kerrCnt := kerrCnt b + 1 \<rparr>"
    unfolding eq by (simp add: run_append_builder)
  show "handoff env (nHand l) = Sent \<Longrightarrow> fst (run_step env b l e) = None"
    unfolding eq by (simp add: run_append_sent)
qed

subsection \<open>Table compaction\<close>

lemma compactionCommit_first:
  assumes "\<not> isClosed a" "afterRun a \<noteq> CloseC"
  shows "compactionCommit dis r cat ((a, None) # rest) = (Returned (cat @ [r]), [])"
  using assms
  by (cases "afterRun a") (simp_all add: compactionCommit_def compactionTransact_def commit_run_def)

text \<open>
  The catalog edit of a trivial move: the compaction pointer (unless the pick came from
  the overflow prefix), the one source file deleted from the source level and added, with
  the same number, size and keys, to the next level.
\<close>

definition moveEdit :: "compaction \<Rightarrow> sessionRecord" where
  "moveEdit c =
     (let t = hd (levels0 c)
      in \<lparr> compPtrs = (if overflowed c then []
                       else [\<lparr> cp_level = sourceLevel c, cp_ikey = c_imax c \<rparr>]),
           addedTables = [\<lparr> at_level = sourceLevel c + 1, at_num = fd_num t, at_size = fsize t,
                           at_imin = imin t, at_imax = imax t \<rparr>],
           deletedTables = [\<lparr> dt_level = sourceLevel c, dt_num = fd_num t \<rparr>] \<rparr>)"

lemma tableCompaction_trivial:
  assumes "\<not> noTrivial" "trivial c"
  shows "moved (tableCompaction db c noTrivial br cr)"
    "built (tableCompaction db c noTrivial br cr) = None"
    "edit (tableCompaction db c noTrivial br cr) = Some (moveEdit c)"
    "db_stor (db_after (tableCompaction db c noTrivial br cr)) = db_stor db"
    "committed (tableCompaction db c noTrivial br cr)
       = Some (fst (compactionCommit (disableCompactionBackoff (opts (c_s c))) (moveEdit c) (db_catalog db) cr))"
    "db_catalog (db_after (tableCompaction db c noTrivial br cr))
       = (case fst (compactionCommit (disableCompactionBackoff (opts (c_s c))) (moveEdit c) (db_catalog db) cr) of
            Returned cat \<Rightarrow> cat | Exited cat \<Rightarrow> cat | Panicked x cat \<Rightarrow> cat | Retrying cat \<Rightarrow> cat)"
  using assms
  by (simp_all add: tableCompaction_def Let_def moveEdit_def addCompPtr_def delTable_def addTableFile_def)

lemma tableCompaction_build:
  assumes "noTrivial \<or> \<not> trivial c"
  shows "\<not> moved (tableCompaction db c noTrivial br cr)"
    "built (tableCompaction db c noTrivial br cr) \<noteq> None"
  using assms
  by (auto simp: tableCompaction_def Let_def split: transactResult.splits)

lemma ex_triv_pick: "pickCompaction ex_session ex_v1 = Inr (Some ex_triv)"
  by (simp add: pickCompaction_def newCompaction_def expand_def expand_inputs_def expand_grow_def
      getRange_def getOverlaps_def overlaps_def uCompare_def iCompare_def reduce_def save_def
      ex_v1_def ex_session_def ex_opts_def ex_triv_def ex_file_def k5_def
      makeInternalKey_def Let_def)

lemma maxGPOverlaps_new:
  "newCompaction s v sl t0 ct = Inr c0 \<Longrightarrow> maxGPOverlaps c0 = compactionGPOverlaps (opts s) sl"
  by (auto simp: newCompaction_def expand_def save_def reduce_def Let_def
      split: sum.splits option.splits prod.splits if_splits)

subsection \<open>The retry wrapper\<close>

lemma backoff_step_floor:
  "backoff_step backoffMin lastCnt n = (backoffMin, backoffMax, if n > lastCnt then n else lastCnt)"
  by (simp add: backoff_step_def backoffMin_def backoffMax_def backoffMul_def Second_def wrap64_def Let_def)

lemma backoff_step_ceiling:
  "backoff_step backoffMax lastCnt n =
     (if n > lastCnt then backoffMin else backoffMax, backoffMax, if n > lastCnt then n else lastCnt)"
  by (simp add: backoff_step_def backoffMin_def backoffMax_def backoffMul_def Second_def wrap64_def Let_def)

lemma backoff_step_cases:
  assumes "backoff = backoffMin \<or> backoff = backoffMax"
  shows "backoff_step backoff lastCnt n =
           (if n > lastCnt then backoffMin else backoff, backoffMax, max lastCnt n)"
  using assms backoff_step_floor[of lastCnt n] backoff_step_ceiling[of lastCnt n]
  by (auto simp: max_def)

lemma Max_insert_max:
  "finite S \<Longrightarrow> Max (insert (a::nat) (insert b S)) = Max (insert (max a b) S)"
  by (cases "S = {}") (simp_all add: max.assoc)

lemma transact_loop_retries:
  assumes fails: "\<forall>e st. \<exists>x st'. runf e st = (cntOf e, Some x, st') \<and> transient x"
    and nd: "\<not> dis"
  shows "(\<forall>r \<in> set rounds. undisturbed (fst r)) \<Longrightarrow> backoff = backoffMin \<or> backoff = backoffMax \<Longrightarrow>
     \<exists>st' ws. compactionTransact_loop dis runf revertf backoff lastCnt waits st rounds
                 = (Retrying st', waits @ ws)
       \<and> length ws = length rounds
       \<and> (\<forall>w \<in> set ws. w = backoffMin \<or> w = backoffMax)
       \<and> (\<forall>i < length rounds.
             cntOf (snd (rounds ! i)) > Max (insert lastCnt (set (map (\<lambda>r. cntOf (snd r)) (take i rounds))))
             \<longrightarrow> ws ! i = backoffMin)"
proof (induction rounds arbitrary: backoff lastCnt waits st)
  case Nil
  then show ?case by simp
next
  case (Cons r rest)
  obtain a e where r: "r = (a, e)" by (cases r)
  have und: "\<not> isClosed a" "afterRun a = ErrSetC" "afterBackoff a = TimerC"
    using Cons.prems(1) r by (simp_all add: undisturbed_def)
  obtain x st1 where rf: "runf e st = (cntOf e, Some x, st1)" and tr: "transient x"
    using fails by blast
  have nx: "x \<noteq> ErrTransactExiting" "\<not> isPanic x" "\<not> IsCorrupted x"
    using tr by (auto simp: transient_def isPanic_def)
  let ?w = "if cntOf e > lastCnt then backoffMin else backoff"
  have bs: "backoff_step backoff lastCnt (cntOf e) = (?w, backoffMax, max lastCnt (cntOf e))"
    using backoff_step_cases[OF Cons.prems(2)] .
  have step: "compactionTransact_loop dis runf revertf backoff lastCnt waits st (r # rest)
      = compactionTransact_loop dis runf revertf backoffMax (max lastCnt (cntOf e)) (waits @ [?w]) st1 rest"
    using und rf nx nd bs by (simp add: r)
  have rest_und: "\<forall>r \<in> set rest. undisturbed (fst r)" using Cons.prems(1) by simp
  obtain st' ws where ih:
    "compactionTransact_loop dis runf revertf backoffMax (max lastCnt (cntOf e)) (waits @ [?w]) st1 rest
       = (Retrying st', (waits @ [?w]) @ ws)"
    "length ws = length rest" "\<forall>w \<in> set ws. w = backoffMin \<or> w = backoffMax"
    "\<forall>i < length rest.
        cntOf (snd (rest ! i)) > Max (insert (max lastCnt (cntOf e)) (set (map (\<lambda>r. cntOf (snd r)) (take i rest))))
        \<longrightarrow> ws ! i = backoffMin"
    using Cons.IH[OF rest_und, of backoffMax "max lastCnt (cntOf e)" "waits @ [?w]" st1] by auto
  have wv: "?w = backoffMin \<or> ?w = backoffMax" using Cons.prems(2) by auto
  have idx: "(?w # ws) ! i = backoffMin"
    if i: "i < length (r # rest)"
      and c: "cntOf (snd ((r # rest) ! i)) > Max (insert lastCnt (set (map (\<lambda>r. cntOf (snd r)) (take i (r # rest)))))"
    for i
  proof (cases i)
    case 0
    then show ?thesis using c r by simp
  next
    case (Suc j)
    have "Max (insert lastCnt (set (map (\<lambda>r. cntOf (snd r)) (take i (r # rest)))))
        = Max (insert (max lastCnt (cntOf e)) (set (map (\<lambda>r. cntOf (snd r)) (take j rest))))"
      using Suc r Max_insert_max[of "set (map (\<lambda>r. cntOf (snd r)) (take j rest))" lastCnt "cntOf e"]
      by simp
    then show ?thesis using ih(4) c i Suc by simp
  qed
  show ?case
    unfolding step ih(1)
    using ih(2,3) wv idx by (intro exI[of _ st'] exI[of _ "?w # ws"]) auto
qed

lemma transact_loop_retries_nobackoff:
  assumes fails: "\<forall>e st. \<exists>x st'. runf e st = (cntOf e, Some x, st') \<and> transient x"
  shows "(\<forall>r \<in> set rounds. undisturbed (fst r)) \<Longrightarrow>
     \<exists>st'. compactionTransact_loop True runf revertf backoff lastCnt waits st rounds
                 = (Retrying st', waits)"
proof (induction rounds arbitrary: st)
  case Nil
  then show ?case by simp
next
  case (Cons r rest)
  obtain a e where r: "r = (a, e)" by (cases r)
  have und: "\<not> isClosed a" "afterRun a = ErrSetC"
    using Cons.prems(1) r by (simp_all add: undisturbed_def)
  obtain x st1 where rf: "runf e st = (cntOf e, Some x, st1)" and tr: "transient x"
    using fails by blast
  have nx: "x \<noteq> ErrTransactExiting" "\<not> isPanic x" "\<not> IsCorrupted x"
    using tr by (auto simp: transient_def isPanic_def)
  have step: "compactionTransact_loop True runf revertf backoff lastCnt waits st (r # rest)
      = compactionTransact_loop True runf revertf backoff lastCnt waits st1 rest"
    using und rf nx by (simp add: r)
  have rest_und: "\<forall>r \<in> set rest. undisturbed (fst r)" using Cons.prems(1) by simp
  show ?case unfolding step using Cons.IH[OF rest_und, of st1] .
qed

lemma backoff_bounds: "backoffMin \<le> backoffMin \<and> backoffMin \<le> backoffMax"
  by (simp add: backoffMin_def backoffMax_def Second_def)

section \<open>Claims\<close>

subsection \<open>C10: restore after save\<close>

text \<open>
  C10. \<^verbatim>\<open>restore\<close> after \<^verbatim>\<open>save\<close> is a round trip on the progress cursors:
  whatever \<open>gpi\<close>, \<open>seenKey\<close>, \<open>gpOverlappedBytes\<close>, \<open>tPtrs\<close> and \<open>skipIndex\<close>
  have become since the save, \<^verbatim>\<open>restore\<close> gives back the compaction as it was at the
  save. A compaction built by \<^verbatim>\<open>newCompaction\<close> is saved (restoring it changes
  nothing). An attempt of \<^verbatim>\<open>run\<close>, failed or not, leaves a builder whose compaction
  restores to the same state, so the next attempt on the same input meets the same error
  or none, appends the same output with the same \<open>canStop\<close> and \<open>shouldStop\<close> flags,
  and leaves the same cursors.
\<close>

theorem restore_save_roundtrip:
  "restore ((save c)\<lparr> gpi := g, seenKey := sk, gpOverlappedBytes := ob, tPtrs := ps,
                       skipIndex := si \<rparr>) = save c
   \<and> (case newCompaction s v sl t0 ct of Inl e \<Rightarrow> True | Inr c0 \<Rightarrow> restore c0 = c0)
   \<and> restore (b_c (snd (snd (run env b)))) = restore (b_c b)
   \<and> fst (run_body env' (snd (snd (run env b)))) = fst (run_body env' b)
   \<and> snd (snd (run_body env' (snd (snd (run env b))))) = snd (snd (run_body env' b))
   \<and> b_c (fst (snd (run_body env' (snd (snd (run env b)))))) = b_c (fst (snd (run_body env' b)))"
proof -
  let ?b' = "snd (snd (run env b))"
  have 1: "restore ((save c)\<lparr> gpi := g, seenKey := sk, gpOverlappedBytes := ob, tPtrs := ps,
                       skipIndex := si \<rparr>) = save c"
    by (simp add: restore_def save_def)
  have 2: "(case newCompaction s v sl t0 ct of Inl e \<Rightarrow> True | Inr c0 \<Rightarrow> restore c0 = c0)"
    by (simp add: newCompaction_def restore_def save_def split: sum.split)
  have sv: "static_view ?b' = (restore (b_c b), minSeq b, strict b)" by (rule run_static)
  then have 3: "restore (b_c ?b') = restore (b_c b)" and m: "minSeq ?b' = minSeq b" and st: "strict ?b' = strict b"
    by (simp_all add: static_view_def)
  have "job_view (run_body env' ?b') = job_view (run_body env' b)"
    by (rule run_body_view) (simp_all add: 3 m st)
  then show ?thesis using 1 2 3 by (simp add: job_view_def)
qed

subsection \<open>C8: keys that do not decode\<close>

text \<open>
  C8. For an input key whose decoding fails with \<open>kerr\<close>: in strict mode the
  iteration returns \<open>kerr\<close> and appends nothing, and \<^verbatim>\<open>run\<close> returns \<open>kerr\<close> when its
  loop reaches the key. With strict mode off the key and its value are appended to the
  output unchanged, with both flags off, the last user key is forgotten (so the next
  key that decodes counts as the first occurrence of its user key, whatever it is), and the
  entry is in the output of every loop that runs to its end. With strict mode off the
  iteration does not return the decode error: it counts the key in \<open>kerrCnt\<close>, returns no
  error when the buffer is not handed over or the hand-over succeeds, and otherwise
  returns the error of the writer stage or unwinds because the DB is closing. A loop
  with strict mode off whose hand-overs succeed runs to its end, with the entry in its
  output.
\<close>

theorem undecodable_key_passed_or_aborts:
  assumes "parseInternalKey (fst e) = Inl kerr"
  shows "(strict b \<longrightarrow> run_step env b l e = (Some kerr, b, l\<lparr>cnt := cnt l + 1\<rparr>))
       \<and> (strict b \<longrightarrow> entries env = pre @ e # post
            \<longrightarrow> fst (run_loop env (b\<lparr> b_c := restore (b_c b) \<rparr>) run_init pre) = None
            \<longrightarrow> fst (snd (run env b)) = Some kerr)
       \<and> (\<not> strict b \<longrightarrow>
            out (snd (snd (run_step env b l e))) = out l @ [(fst e, snd e, False, False)]
            \<and> \<not> hasLastUkey (snd (snd (run_step env b l e)))
            \<and> lastUkey (snd (snd (run_step env b l e))) = []
            \<and> lastSeq (snd (snd (run_step env b l e))) = keyMaxSeq
            \<and> fst (run_first oPrefix (snd (snd (run_step env b l e))) uk))
       \<and> (\<not> strict b \<longrightarrow> e \<in> set es \<longrightarrow> fst (run_loop env b l es) = None
            \<longrightarrow> (fst e, snd e, False, False) \<in> set (out (snd (snd (run_loop env b l es)))))
       \<and> (\<not> strict b \<longrightarrow>
            fst (snd (run_step env b l e)) = b\<lparr> kerrCnt := kerrCnt b + 1 \<rparr>
            \<and> (handoff env (nHand l) = Sent \<longrightarrow> fst (run_step env b l e) = None)
            \<and> (fst (run_step env b l e) = None
                \<or> (\<exists>x. fst (run_step env b l e) = Some x
                      \<and> (handoff env (nHand l) = WriterError x
                          \<or> (x = ErrTransactExiting \<and> handoff env (nHand l) = Closing)))))
       \<and> (\<not> strict b \<longrightarrow> (\<forall>n. handoff env n = Sent)
            \<longrightarrow> length (tPtrs (b_c b)) = length (levels (c_v (b_c b))) \<longrightarrow> e \<in> set es
            \<longrightarrow> fst (run_loop env b l es) = None
                \<and> (fst e, snd e, False, False) \<in> set (out (snd (snd (run_loop env b l es)))))"
proof -
  have c1: "strict b \<longrightarrow> run_step env b l e = (Some kerr, b, l\<lparr>cnt := cnt l + 1\<rparr>)"
    unfolding run_step_kerr[OF assms] by simp
  have c2: "strict b \<longrightarrow> entries env = pre @ e # post
            \<longrightarrow> fst (run_loop env (b\<lparr> b_c := restore (b_c b) \<rparr>) run_init pre) = None
            \<longrightarrow> fst (snd (run env b)) = Some kerr"
    using run_strict_abort[OF assms] by blast
  have f: "\<not> strict b \<Longrightarrow> fst (run_first oPrefix (snd (snd (run_step env b l e))) uk)"
    using run_step_kerr_lenient(2)[OF assms, of b env l] by (simp add: run_first_def Let_def)
  have c3: "\<not> strict b \<longrightarrow>
            out (snd (snd (run_step env b l e))) = out l @ [(fst e, snd e, False, False)]
            \<and> \<not> hasLastUkey (snd (snd (run_step env b l e)))
            \<and> lastUkey (snd (snd (run_step env b l e))) = []
            \<and> lastSeq (snd (snd (run_step env b l e))) = keyMaxSeq
            \<and> fst (run_first oPrefix (snd (snd (run_step env b l e))) uk)"
    using f run_step_kerr_lenient[OF assms, of b env l] by simp
  have c4: "\<not> strict b \<longrightarrow> e \<in> set es \<longrightarrow> fst (run_loop env b l es) = None
            \<longrightarrow> (fst e, snd e, False, False) \<in> set (out (snd (snd (run_loop env b l es))))"
    using run_loop_kerr_lenient[of b e es kerr env l, OF _ _ assms] by simp
  have c5: "\<not> strict b \<longrightarrow>
            fst (snd (run_step env b l e)) = b\<lparr> kerrCnt := kerrCnt b + 1 \<rparr>
            \<and> (handoff env (nHand l) = Sent \<longrightarrow> fst (run_step env b l e) = None)
            \<and> (fst (run_step env b l e) = None
                \<or> (\<exists>x. fst (run_step env b l e) = Some x
                      \<and> (handoff env (nHand l) = WriterError x
                          \<or> (x = ErrTransactExiting \<and> handoff env (nHand l) = Closing))))"
    using run_step_kerr_lenient_error[OF assms, of b env l] by simp
  have c6: "\<not> strict b \<longrightarrow> (\<forall>n. handoff env n = Sent)
            \<longrightarrow> length (tPtrs (b_c b)) = length (levels (c_v (b_c b))) \<longrightarrow> e \<in> set es
            \<longrightarrow> fst (run_loop env b l es) = None
                \<and> (fst e, snd e, False, False) \<in> set (out (snd (snd (run_loop env b l es))))"
  proof (intro impI)
    assume h: "\<not> strict b" "\<forall>n. handoff env n = Sent"
      "length (tPtrs (b_c b)) = length (levels (c_v (b_c b)))" "e \<in> set es"
    have n: "fst (run_loop env b l es) = None"
      using run_loop_lenient_total[OF h(1,2), of l es] h(3) by (simp add: lens_ok_def)
    then show "fst (run_loop env b l es) = None
                \<and> (fst e, snd e, False, False) \<in> set (out (snd (snd (run_loop env b l es))))"
      using run_loop_kerr_lenient[OF h(1) h(4) assms n] by simp
  qed
  show ?thesis using c1 c2 c3 c4 c5 c6 by (intro conjI)
qed

theorem undecodable_key_witness:
  "parseInternalKey (InternalKey ''k'' 775) = Inl ErrCorrupted
   \<and> run_step ex_env (ex_builder\<lparr> strict := True \<rparr>) run_init (InternalKey ''k'' 775, ''v'')
       = (Some ErrCorrupted, ex_builder\<lparr> strict := True \<rparr>, run_init\<lparr> cnt := 1 \<rparr>)
   \<and> run_step ex_env ex_builder run_init (InternalKey ''k'' 775, ''v'')
       = (None, ex_builder\<lparr> kerrCnt := 1 \<rparr>,
          run_init\<lparr> cnt := 1, lastSeq := keyMaxSeq,
                    out := [(InternalKey ''k'' 775, ''v'', False, False)],
                    pending := True, bufLen := 10 \<rparr>)
   \<and> \<not> strict ex_builder
   \<and> handoff ex_env 0 = Sent
   \<and> length (tPtrs (b_c ex_builder)) = length (levels (c_v (b_c ex_builder)))
   \<and> fst (run_loop ex_env ex_builder run_init
            [(k5, ''v5''), (InternalKey ''k'' 775, ''v''), (k2, ''v2'')]) = None
   \<and> (InternalKey ''k'' 775, ''v'', False, False)
       \<in> set (out (snd (snd (run_loop ex_env ex_builder run_init
                  [(k5, ''v5''), (InternalKey ''k'' 775, ''v''), (k2, ''v2'')]))))"
proof -
  have h: "parseInternalKey (fst (InternalKey ''k'' 775, ''v'')) = Inl ErrCorrupted"
    by (simp add: parseInternalKey_def)
  have ns: "\<not> strict ex_builder" by (simp add: ex_builder_def)
  have sent: "\<forall>n. handoff ex_env n = Sent" by (simp add: ex_env_def)
  have len: "length (tPtrs (b_c ex_builder)) = length (levels (c_v (b_c ex_builder)))"
    by (simp add: ex_builder_def ex_c_def ex_version_def)
  have mem: "(InternalKey ''k'' 775, ''v'') \<in> set [(k5, ''v5''), (InternalKey ''k'' 775, ''v''), (k2, ''v2'')]"
    by simp
  have step: "run_step ex_env ex_builder run_init (InternalKey ''k'' 775, ''v'')
       = (None, ex_builder\<lparr> kerrCnt := 1 \<rparr>,
          run_init\<lparr> cnt := 1, lastSeq := keyMaxSeq,
                    out := [(InternalKey ''k'' 775, ''v'', False, False)],
                    pending := True, bufLen := 10 \<rparr>)"
    by (simp add: run_step_def run_append_def parseInternalKey_def run_init_def Let_def
        ex_builder_def ex_c_def ex_session_def ex_opts_def ex_env_def)
  note t1 = undecodable_key_passed_or_aborts[OF h,
      where b="ex_builder\<lparr> strict := True \<rparr>" and env=ex_env and l=run_init]
  note t2 = undecodable_key_passed_or_aborts[OF h,
      where b=ex_builder and env=ex_env and l=run_init
        and es="[(k5, ''v5''), (InternalKey ''k'' 775, ''v''), (k2, ''v2'')]"]
  have s1: "run_step ex_env (ex_builder\<lparr> strict := True \<rparr>) run_init (InternalKey ''k'' 775, ''v'')
       = (Some ErrCorrupted, ex_builder\<lparr> strict := True \<rparr>, run_init\<lparr> cnt := 1 \<rparr>)"
    using t1 by (simp add: run_init_def)
  have s2: "fst (run_loop ex_env ex_builder run_init
            [(k5, ''v5''), (InternalKey ''k'' 775, ''v''), (k2, ''v2'')]) = None
   \<and> (InternalKey ''k'' 775, ''v'', False, False)
       \<in> set (out (snd (snd (run_loop ex_env ex_builder run_init
                  [(k5, ''v5''), (InternalKey ''k'' 775, ''v''), (k2, ''v2'')]))))"
    using t2 ns sent len mem by simp
  show ?thesis using h s1 s2 step ns sent len by simp
qed

subsection \<open>C5: the entries 5, 4, 3, 2 of one user key\<close>

text \<open>
  C5, as the spec states it, fails on the code. In the level-0 compaction of the example
  (four overlapping files with the entries of \<open>k\<close> of sequence numbers 5, 4, 3, 2 and
  kinds put, put, delete, put; oldest live snapshot 4) the output holds the put of
  sequence number 5 and the put of sequence number 4, not the first alone: the entry 4 is
  the one the snapshot 4 reads. The delete-marker 3 is dropped although a table of level
  \<open>sourceLevel + 2\<close> covers \<open>k\<close>: it is superseded by the entry 4.
\<close>

theorem scenario_5432_counterexample:
  "fst (run_body ex_env ex_builder) = None
   \<and> map (\<lambda>x. (fst x, fst (snd x))) (out (snd (snd (run_body ex_env ex_builder))))
       = [(k5, ''v5''), (k4, ''v4'')]
   \<and> map (\<lambda>x. (fst x, fst (snd x))) (out (snd (snd (run_body ex_env ex_builder))))
       \<noteq> [(k5, ''v5'')]
   \<and> levels (c_v (b_c ex_builder)) ! (sourceLevel (b_c ex_builder) + 2) = [ex_gp]
   \<and> overlaps ex_gp ''k'' ''k''"
proof -
  have m: "minSeq ex_builder = 4" by (simp add: ex_builder_def)
  have es: "entries ex_env =
      [(makeInternalKey ''k'' 5 keyTypeVal, ''v5''), (makeInternalKey ''k'' 4 keyTypeVal, ''v4''),
       (makeInternalKey ''k'' 3 keyTypeDel, []), (makeInternalKey ''k'' 2 keyTypeVal, ''v2'')]"
    by (simp add: ex_env_def k5_def k4_def k3_def k2_def)
  have ie: "iterErr ex_env = None" and sent: "\<forall>n. handoff ex_env n = Sent"
    by (simp_all add: ex_env_def)
  have lv: "levels (c_v (b_c ex_builder)) ! (sourceLevel (b_c ex_builder) + 2) = [ex_gp]"
    by (simp add: ex_builder_def ex_c_def ex_version_def)
  have ov: "overlaps ex_gp ''k'' ''k''"
    by (simp add: overlaps_def ex_gp_def ex_file_def makeInternalKey_def uCompare_def)
  show ?thesis
    using scenario_5432[OF m es ie sent] lv ov by (simp add: k5_def k4_def)
qed

text \<open>
  C5, amended. For the entries of one user key with the sequence numbers 5, 4, 3, 2 of
  the kinds put, put, delete, put and the minimum live sequence number 4, an attempt
  whose hand-overs succeed returns no error and its output holds exactly the put 5 and
  the put 4, in this order: the delete-marker 3 and the put 2 are dropped as superseded,
  whatever the tables of the deeper levels cover.
\<close>

theorem scenario_5432_output:
  assumes "minSeq b = 4"
    and "entries env = [(makeInternalKey u 5 keyTypeVal, v5), (makeInternalKey u 4 keyTypeVal, v4),
                        (makeInternalKey u 3 keyTypeDel, v3), (makeInternalKey u 2 keyTypeVal, v2)]"
    and "iterErr env = None" and "\<forall>n. handoff env n = Sent"
  shows "fst (run_body env b) = None
       \<and> map (\<lambda>x. (fst x, fst (snd x))) (out (snd (snd (run_body env b))))
           = [(makeInternalKey u 5 keyTypeVal, v5), (makeInternalKey u 4 keyTypeVal, v4)]"
  using assms by (rule scenario_5432)

theorem scenario_5432_output_witness:
  "minSeq ex_builder = 4
   \<and> entries ex_env = [(k5, ''v5''), (k4, ''v4''), (k3, []), (k2, ''v2'')]
   \<and> iterErr ex_env = None
   \<and> handoff ex_env 0 = Sent
   \<and> fst (run_body ex_env ex_builder) = None
   \<and> map (\<lambda>x. (fst x, fst (snd x))) (out (snd (snd (run_body ex_env ex_builder))))
       = [(k5, ''v5''), (k4, ''v4'')]"
proof -
  have m: "minSeq ex_builder = 4" by (simp add: ex_builder_def)
  have es: "entries ex_env =
      [(makeInternalKey ''k'' 5 keyTypeVal, ''v5''), (makeInternalKey ''k'' 4 keyTypeVal, ''v4''),
       (makeInternalKey ''k'' 3 keyTypeDel, []), (makeInternalKey ''k'' 2 keyTypeVal, ''v2'')]"
    by (simp add: ex_env_def k5_def k4_def k3_def k2_def)
  have ie: "iterErr ex_env = None" and sent: "\<forall>n. handoff ex_env n = Sent"
    by (simp_all add: ex_env_def)
  show ?thesis
    using scenario_5432_output[OF m es ie sent] m es ie sent by (simp add: k5_def k4_def k3_def k2_def)
qed

subsection \<open>C1: when a delete-marker is dropped\<close>

text \<open>
  C1, as the spec states it, fails on the code: a delete-marker whose user key is covered
  by a table of level \<open>sourceLevel + 2\<close> is dropped all the same when a newer entry of
  the same user key, with a sequence number up to the minimum live one, came before it.
  Here the put of \<open>k\<close> with sequence number 3 is followed by the delete-marker 2, the
  minimum live sequence number is 5 and the level-2 table of the example covers \<open>k\<close>:
  the output holds the put alone.
\<close>

theorem covered_marker_counterexample:
  "parseInternalKey (makeInternalKey ''k'' 2 keyTypeDel) = Inr (''k'', 2, keyTypeDel)
   \<and> entries (ex_env\<lparr> entries := [(makeInternalKey ''k'' 3 keyTypeVal, ''v''),
                                   (makeInternalKey ''k'' 2 keyTypeDel, [])] \<rparr>)
       = [(makeInternalKey ''k'' 3 keyTypeVal, ''v''), (makeInternalKey ''k'' 2 keyTypeDel, [])]
   \<and> ex_gp \<in> set (levels (c_v (b_c ex_builder)) ! (sourceLevel (b_c ex_builder) + 2))
   \<and> covers ex_gp ''k''
   \<and> fst (run_body (ex_env\<lparr> entries := [(makeInternalKey ''k'' 3 keyTypeVal, ''v''),
                                         (makeInternalKey ''k'' 2 keyTypeDel, [])] \<rparr>)
             (ex_builder\<lparr> minSeq := 5 \<rparr>)) = None
   \<and> map (\<lambda>x. (fst x, fst (snd x)))
         (out (snd (snd (run_body (ex_env\<lparr> entries := [(makeInternalKey ''k'' 3 keyTypeVal, ''v''),
                                                       (makeInternalKey ''k'' 2 keyTypeDel, [])] \<rparr>)
                           (ex_builder\<lparr> minSeq := 5 \<rparr>)))))
       = [(makeInternalKey ''k'' 3 keyTypeVal, ''v'')]"
proof -
  let ?env = "ex_env\<lparr> entries := [(makeInternalKey ''k'' 3 keyTypeVal, ''v''),
                                   (makeInternalKey ''k'' 2 keyTypeDel, [])] \<rparr>"
  let ?b = "ex_builder\<lparr> minSeq := 5 \<rparr>"
  have m: "3 \<le> minSeq ?b" "minSeq ?b < keyMaxSeq" by (simp_all add: keyMaxSeq_def)
  have es: "entries ?env = [(makeInternalKey ''k'' 3 keyTypeVal, ''v''),
                            (makeInternalKey ''k'' 2 keyTypeDel, [])]" by simp
  have ie: "iterErr ?env = None" and sent: "\<forall>n. handoff ?env n = Sent"
    by (simp_all add: ex_env_def)
  have gp: "ex_gp \<in> set (levels (c_v (b_c ex_builder)) ! (sourceLevel (b_c ex_builder) + 2))"
    by (simp add: ex_builder_def ex_c_def ex_version_def)
  have cov: "covers ex_gp ''k''"
    by (simp add: covers_def ex_gp_def ex_file_def makeInternalKey_def)
  show ?thesis
    using superseded_marker[OF m es ie sent] gp cov by (simp add: parseInternalKey_make)
qed

text \<open>
  C1, amended. In an attempt of \<^verbatim>\<open>run\<close> that returns no error, on an input in key
  order, with the cursors saved at zero and the levels from \<open>sourceLevel + 2\<close> on
  disjoint and in order, a delete-marker is missing from the output only when it is
  superseded (the entry right before it has the same user key and a sequence number up
  to \<open>minSeq\<close>), or when its own sequence number is up to \<open>minSeq\<close> and no table of
  a level from \<open>sourceLevel + 2\<close> on covers its user key. So a delete-marker that is not
  superseded and whose user key such a table covers is in the output.
\<close>

theorem delete_marker_fate:
  assumes snap: "snapTPtrs (b_c b) = replicate (length (levels (c_v (b_c b)))) 0"
    and srt: "\<forall>L. sourceLevel (b_c b) + 2 \<le> L \<and> L < length (levels (c_v (b_c b)))
                \<longrightarrow> tables_sorted (levels (c_v (b_c b)) ! L)"
    and ord: "sorted (map (\<lambda>e. ukey (fst e)) (entries env))"
    and es: "entries env = pre @ (ik, v) # post"
    and p: "parseInternalKey ik = Inr (u, sq, keyTypeDel)"
    and ms: "minSeq b < keyMaxSeq"
    and fin: "fst (run_body env b) = None"
  shows "(pre \<noteq> [] \<and> (case parseInternalKey (fst (last pre)) of
                          Inl k \<Rightarrow> False
                        | Inr (u', s', kt') \<Rightarrow> u' = u \<and> s' \<le> minSeq b))
       \<or> (sq \<le> minSeq b
           \<and> \<not> (\<exists>L t. sourceLevel (b_c b) + 2 \<le> L \<and> L < length (levels (c_v (b_c b)))
                    \<and> t \<in> set (levels (c_v (b_c b)) ! L) \<and> covers t u))
       \<or> (\<exists>cs ss. (ik, v, cs, ss) \<in> set (out (snd (snd (run_body env b)))))"
proof -
  let ?b0 = "b\<lparr> b_c := restore (b_c b) \<rparr>"
  let ?lv = "levels (c_v (b_c b))"
  let ?e = "(ik, v)"
  obtain b' l' where rl: "run_loop env ?b0 run_init (entries env) = (None, b', l')"
    and ol: "out (snd (snd (run_body env b))) = out l'"
    using run_body_loop[OF fin] by blast
  obtain r1 b1 l1 where p1: "run_loop env ?b0 run_init pre = (r1, b1, l1)"
    by (metis prod_cases3)
  have r1: "r1 = None" using rl unfolding es run_loop_append p1 by (cases r1) simp_all
  obtain r2 b2 l2 where s2: "run_step env b1 l1 ?e = (r2, b2, l2)" by (metis prod_cases3)
  have r2: "r2 = None" using rl unfolding es run_loop_append p1 r1 using s2 by (cases r2) simp_all
  have rest: "run_loop env b2 l2 post = (None, b', l')"
    using rl unfolding es run_loop_append p1 r1 using s2 r2 by simp
  obtain ys where ys: "out l' = out l2 @ ys"
    using run_loop_out[of env b2 l2 post] rest by auto
  have uk: "u = ukey ik" using parseInternalKey_ukey[OF p] .
  have cv1: "c_v (b_c b1) = c_v (b_c b)" "sourceLevel (b_c b1) = sourceLevel (b_c b)"
    "minSeq b1 = minSeq b"
    using run_loop_c_v[of env ?b0 run_init pre] p1 by (simp_all add: restore_def)
  have ok0: "cursor_ok ?b0 []"
    using snap by (simp add: cursor_ok_def ptrs_ok_def restore_def)
  have srt_pre: "sorted (map (\<lambda>e. ukey (fst e)) pre)" and le_u: "\<forall>e \<in> set pre. ukey (fst e) \<le> u"
    using ord unfolding es uk by (auto simp: sorted_append)
  have ok1: "cursor_ok b1 u"
    using run_loop_cursor[OF srt_pre ok0, of u env run_init] le_u p1 by simp
  let ?sup = "pre \<noteq> [] \<and> (case parseInternalKey (fst (last pre)) of
                          Inl k \<Rightarrow> False
                        | Inr (u', s', kt') \<Rightarrow> u' = u \<and> s' \<le> minSeq b)"
  show ?thesis
  proof (cases ?sup)
    case True
    then show ?thesis by blast
  next
    case False
    have eff: "effLastSeq l1 u > minSeq b1"
    proof (cases "pre = []")
      case True
      then have "l1 = run_init" using p1 by simp
      then show ?thesis using ms cv1 by (simp add: effLastSeq_def run_init_def)
    next
      case ne: False
      note last = run_loop_last[OF ne p1[unfolded r1]]
      show ?thesis
      proof (cases "parseInternalKey (fst (last pre))")
        case (Inl k)
        then show ?thesis using last ms cv1 by (simp add: effLastSeq_def)
      next
        case (Inr q)
        obtain u' s' kt' where q: "q = (u', s', kt')" by (cases q)
        have "hasLastUkey l1" "lastUkey l1 = u'" "lastSeq l1 = s'" using last Inr q by simp_all
        moreover have "u' \<noteq> u \<or> s' > minSeq b" using False ne Inr q by auto
        ultimately show ?thesis using ms cv1 by (auto simp: effLastSeq_def)
      qed
    qed
    have pe: "parseInternalKey (fst ?e) = Inr (u, sq, keyTypeDel)" using p by simp
    show ?thesis
    proof (rule run_step_decoded_cases[OF pe, where b=b1 and l=l1 and env=env], goal_cases)
      case (1 err l'')
      then show ?case using s2 r2 by simp
    next
      case (2 c2 l'')
      let ?c1 = "snd (shouldStopBefore (b_c b1) (fst ?e))"
      from 2(1) eff have sq: "sq \<le> minSeq b1" and bl: "baseLevelForKey ?c1 u = Inr (True, c2)"
        by (auto simp: run_switch_def split: if_splits)
      obtain ptrs' where bll:
        "baseLevel_loop (levels (c_v ?c1)) u (sourceLevel ?c1 + 2) (tPtrs ?c1) = Inr (True, ptrs')"
        using bl by (auto simp: baseLevelForKey_def split: sum.splits)
      have okc: "ptrs_ok (levels (c_v ?c1)) (tPtrs ?c1) u"
        using ok1 by (simp add: cursor_ok_def shouldStopBefore_tPtrs)
      have "\<not> (\<exists>L t. sourceLevel (b_c b) + 2 \<le> L \<and> L < length ?lv \<and> t \<in> set (?lv ! L) \<and> covers t u)"
      proof
        assume "\<exists>L t. sourceLevel (b_c b) + 2 \<le> L \<and> L < length ?lv \<and> t \<in> set (?lv ! L) \<and> covers t u"
        then obtain L t where L: "sourceLevel (b_c b) + 2 \<le> L" "L < length ?lv"
          and t: "t \<in> set (?lv ! L)" "covers t u" by blast
        have "tables_sorted (?lv ! L)" using srt L by blast
        then have "\<not> True"
          using baseLevel_loop_covered[OF okc bll, of L t] L t
          by (simp add: shouldStopBefore_tPtrs cv1)
        then show False by simp
      qed
      then show ?case using sq cv1 by simp
    next
      case (3 c2 r l'' cs ss)
      then have "out l2 = out l1 @ [(ik, v, cs, ss)]" using s2 by simp
      then have "(ik, v, cs, ss) \<in> set (out l')" using ys by simp
      then show ?case using ol by auto
    qed
  qed
qed

theorem delete_marker_fate_witness:
  "snapTPtrs (b_c ex_builder) = replicate (length (levels (c_v (b_c ex_builder)))) 0
   \<and> tables_sorted (levels (c_v (b_c ex_builder)) ! 2)
   \<and> parseInternalKey k3 = Inr (''k'', 3, keyTypeDel)
   \<and> ex_gp \<in> set (levels (c_v (b_c ex_builder)) ! (sourceLevel (b_c ex_builder) + 2))
   \<and> covers ex_gp ''k''
   \<and> minSeq ex_builder < keyMaxSeq
   \<and> fst (run_body (ex_env\<lparr> entries := [(k3, [])] \<rparr>) ex_builder) = None
   \<and> (\<exists>cs ss. (k3, [], cs, ss)
         \<in> set (out (snd (snd (run_body (ex_env\<lparr> entries := [(k3, [])] \<rparr>) ex_builder)))))"
proof -
  let ?env = "ex_env\<lparr> entries := [(k3, [])] \<rparr>"
  have lv: "levels (c_v (b_c ex_builder)) = [[ex_file 1 k5 k5, ex_file 2 k4 k4, ex_file 3 k3 k3, ex_file 4 k2 k2], [], [ex_gp]]"
    and sl: "sourceLevel (b_c ex_builder) = 0"
    by (simp_all add: ex_builder_def ex_c_def ex_version_def)
  have snap: "snapTPtrs (b_c ex_builder) = replicate (length (levels (c_v (b_c ex_builder)))) 0"
    by (simp add: ex_builder_def ex_c_def ex_version_def numeral_3_eq_3)
  have s2: "tables_sorted (levels (c_v (b_c ex_builder)) ! 2)"
    by (simp add: lv tables_sorted_def)
  have srt: "\<forall>L. sourceLevel (b_c ex_builder) + 2 \<le> L \<and> L < length (levels (c_v (b_c ex_builder)))
                \<longrightarrow> tables_sorted (levels (c_v (b_c ex_builder)) ! L)"
  proof (intro allI impI)
    fix L assume "sourceLevel (b_c ex_builder) + 2 \<le> L \<and> L < length (levels (c_v (b_c ex_builder)))"
    then have "L = 2" by (simp add: lv sl)
    then show "tables_sorted (levels (c_v (b_c ex_builder)) ! L)" using s2 by simp
  qed
  have ord: "sorted (map (\<lambda>e. ukey (fst e)) (entries ?env))" by simp
  have es: "entries ?env = [] @ (k3, []) # []" by simp
  have p: "parseInternalKey k3 = Inr (''k'', 3, keyTypeDel)"
    by (simp add: k3_def parseInternalKey_make)
  have ms: "minSeq ex_builder < keyMaxSeq" by (simp add: ex_builder_def keyMaxSeq_def)
  have fin: "fst (run_body ?env ex_builder) = None"
    by (simp add: run_body_def run_step_def run_first_def run_switch_def run_append_def
      baseLevelForKey_def baseLevel_loop.simps shouldStopBefore_def restore_def
      parseInternalKey_def makeInternalKey_def uCompare_def iCompare_def keyMaxSeq_def
      ex_env_def ex_builder_def ex_c_def ex_version_def ex_session_def ex_opts_def ex_gp_def
      ex_file_def k3_def k5_def k4_def k2_def run_init_def Let_def)
  have gp: "ex_gp \<in> set (levels (c_v (b_c ex_builder)) ! (sourceLevel (b_c ex_builder) + 2))"
    by (simp add: lv sl)
  have cov: "covers ex_gp ''k''"
    by (simp add: covers_def ex_gp_def ex_file_def makeInternalKey_def)
  have ex: "\<exists>L t. sourceLevel (b_c ex_builder) + 2 \<le> L \<and> L < length (levels (c_v (b_c ex_builder)))
                    \<and> t \<in> set (levels (c_v (b_c ex_builder)) ! L) \<and> covers t ''k''"
    using gp cov by (intro exI[of _ 2] exI[of _ ex_gp]) (simp add: lv sl)
  have "\<exists>cs ss. (k3, [], cs, ss) \<in> set (out (snd (snd (run_body ?env ex_builder))))"
    using delete_marker_fate[OF snap srt ord es p ms fin] ex by simp blast
  then show ?thesis using snap s2 p gp cov ms fin by simp
qed

subsection \<open>C3: trivial moves\<close>

text \<open>
  C3, as the spec states it, fails on the code: \<^verbatim>\<open>tableCompaction\<close> takes the move
  only under \<^verbatim>\<open>!noTrivial && c.trivial()\<close>, and a range compaction passes
  \<open>noTrivial = true\<close>. The trivial compaction of the example, executed with
  \<open>noTrivial\<close>, runs the builder: the edit deletes file 1 from level 0 and adds the new
  table 7 to level 1, and the storage holds the new file.
\<close>

theorem trivial_move_counterexample:
  "trivial ex_triv
   \<and> \<not> moved (tableCompaction ex_db ex_triv True [(ex_attempt, ex_env1)] [(ex_attempt, None)])
   \<and> edit (tableCompaction ex_db ex_triv True [(ex_attempt, ex_env1)] [(ex_attempt, None)])
       = Some \<lparr> compPtrs = [\<lparr> cp_level = 0, cp_ikey = Some k5 \<rparr>],
                addedTables = [\<lparr> at_level = 1, at_num = 7, at_size = 10, at_imin = k5, at_imax = k5 \<rparr>],
                deletedTables = [\<lparr> dt_level = 0, dt_num = 1 \<rparr>] \<rparr>
   \<and> db_stor (db_after (tableCompaction ex_db ex_triv True [(ex_attempt, ex_env1)] [(ex_attempt, None)]))
       = {1, 7}"
  by (simp add: tableCompaction_def compactionTransact_def compactionCommit_def commit_run_def
      run_def run_body_def run_step_def run_first_def run_switch_def run_append_def
      run_deferred_def flushLoop_def trivial_def tFiles_size_def
      shouldStopBefore_def restore_def addCompPtr_def delTable_def addTableFile_def
      parseInternalKey_def makeInternalKey_def uCompare_def iCompare_def keyMaxSeq_def isPanic_def
      ex_db_def ex_attempt_def ex_triv_def ex_v1_def ex_session_def ex_opts_def ex_env1_def
      ex_file_def k5_def run_init_def Let_def insert_commute)

text \<open>
  C3, amended. \<^verbatim>\<open>trivial()\<close> holds exactly when the source group is a single file,
  the target group is empty and the byte size of the grandparent overlap is at most
  \<open>maxGPOverlaps\<close>, which \<^verbatim>\<open>newCompaction\<close> sets to the configured limit. A trivial
  compaction executed with \<open>noTrivial\<close> off runs no builder and writes nothing to the
  storage; its edit is \<open>moveEdit\<close>: the file deleted from the source level and the
  identical descriptor added at \<open>sourceLevel + 1\<close> (with the compaction pointer unless
  overflowed), and a commit that succeeds at once appends exactly this edit to the
  catalog. With \<open>noTrivial\<close> on, or for a compaction that is not trivial, the builder
  runs.
\<close>

theorem trivial_move:
  "trivial c = (length (levels0 c) = 1 \<and> length (levels1 c) = 0
                  \<and> tFiles_size (gp c) \<le> maxGPOverlaps c)
   \<and> (case newCompaction s v sl t0 ct of
         Inl e \<Rightarrow> True
       | Inr c0 \<Rightarrow> maxGPOverlaps c0 = compactionGPOverlaps (opts s) sl)
   \<and> (\<not> noTrivial \<and> trivial c \<longrightarrow>
         moved (tableCompaction db c noTrivial br cr)
         \<and> built (tableCompaction db c noTrivial br cr) = None
         \<and> edit (tableCompaction db c noTrivial br cr) = Some (moveEdit c)
         \<and> db_stor (db_after (tableCompaction db c noTrivial br cr)) = db_stor db
         \<and> (\<forall>a rest. cr = (a, None) # rest \<and> \<not> isClosed a \<and> afterRun a \<noteq> CloseC \<longrightarrow>
               db_catalog (db_after (tableCompaction db c noTrivial br cr))
                 = db_catalog db @ [moveEdit c]))
   \<and> (noTrivial \<or> \<not> trivial c \<longrightarrow>
         \<not> moved (tableCompaction db c noTrivial br cr)
         \<and> built (tableCompaction db c noTrivial br cr) \<noteq> None)"
proof -
  let ?r = "tableCompaction db c noTrivial br cr"
  have 1: "trivial c = (length (levels0 c) = 1 \<and> length (levels1 c) = 0
                  \<and> tFiles_size (gp c) \<le> maxGPOverlaps c)"
    by (simp add: trivial_def)
  have 2: "(case newCompaction s v sl t0 ct of
         Inl e \<Rightarrow> True
       | Inr c0 \<Rightarrow> maxGPOverlaps c0 = compactionGPOverlaps (opts s) sl)"
    by (simp add: maxGPOverlaps_new split: sum.split)
  have 3: "db_catalog (db_after ?r) = db_catalog db @ [moveEdit c]"
    if "\<not> noTrivial" "trivial c" "cr = (a, None) # rest" "\<not> isClosed a" "afterRun a \<noteq> CloseC"
    for a rest
    using that compactionCommit_first[of a "disableCompactionBackoff (opts (c_s c))" "moveEdit c" "db_catalog db" rest]
      tableCompaction_trivial(6)[of noTrivial c db br cr]
    by simp
  have 4: "\<not> noTrivial \<and> trivial c \<longrightarrow>
         moved ?r \<and> built ?r = None \<and> edit ?r = Some (moveEdit c)
         \<and> db_stor (db_after ?r) = db_stor db
         \<and> (\<forall>a rest. cr = (a, None) # rest \<and> \<not> isClosed a \<and> afterRun a \<noteq> CloseC \<longrightarrow>
               db_catalog (db_after ?r) = db_catalog db @ [moveEdit c])"
    using 3 tableCompaction_trivial(1-4)[of noTrivial c db br cr] by blast
  have 5: "noTrivial \<or> \<not> trivial c \<longrightarrow> \<not> moved ?r \<and> built ?r \<noteq> None"
    using tableCompaction_build[of noTrivial c db br cr] by blast
  show ?thesis using 1 2 4 5 by (intro conjI)
qed

theorem trivial_move_witness:
  "pickCompaction ex_session ex_v1 = Inr (Some ex_triv)
   \<and> trivial ex_triv
   \<and> moved (tableCompaction ex_db ex_triv False [] [(ex_attempt, None)])
   \<and> built (tableCompaction ex_db ex_triv False [] [(ex_attempt, None)]) = None
   \<and> edit (tableCompaction ex_db ex_triv False [] [(ex_attempt, None)])
       = Some \<lparr> compPtrs = [\<lparr> cp_level = 0, cp_ikey = Some k5 \<rparr>],
                addedTables = [\<lparr> at_level = 1, at_num = 1, at_size = 10, at_imin = k5, at_imax = k5 \<rparr>],
                deletedTables = [\<lparr> dt_level = 0, dt_num = 1 \<rparr>] \<rparr>
   \<and> db_stor (db_after (tableCompaction ex_db ex_triv False [] [(ex_attempt, None)])) = {1}
   \<and> db_catalog (db_after (tableCompaction ex_db ex_triv False [] [(ex_attempt, None)]))
       = [\<lparr> compPtrs = [\<lparr> cp_level = 0, cp_ikey = Some k5 \<rparr>],
            addedTables = [\<lparr> at_level = 1, at_num = 1, at_size = 10, at_imin = k5, at_imax = k5 \<rparr>],
            deletedTables = [\<lparr> dt_level = 0, dt_num = 1 \<rparr>] \<rparr>]"
proof -
  have t: "trivial ex_triv" by (simp add: trivial_def ex_triv_def tFiles_size_def)
  have me: "moveEdit ex_triv
       = \<lparr> compPtrs = [\<lparr> cp_level = 0, cp_ikey = Some k5 \<rparr>],
           addedTables = [\<lparr> at_level = 1, at_num = 1, at_size = 10, at_imin = k5, at_imax = k5 \<rparr>],
           deletedTables = [\<lparr> dt_level = 0, dt_num = 1 \<rparr>] \<rparr>"
    by (simp add: moveEdit_def ex_triv_def ex_file_def)
  have a: "\<not> isClosed ex_attempt" "afterRun ex_attempt \<noteq> CloseC" by (simp_all add: ex_attempt_def)
  show ?thesis
    using trivial_move[of ex_triv _ _ _ _ _ False ex_db "[]" "[(ex_attempt, None)]"] t me a ex_triv_pick
    by (simp add: ex_db_def)
qed

subsection \<open>C7: growing the source group\<close>

text \<open>
  C7. With \<open>t0\<close>, \<open>t1\<close> the groups of steps (a) and (b) of \<^verbatim>\<open>expand\<close>, \<open>exp0\<close> the
  grown source group and \<open>exp1\<close> the overlap of the next level derived again from
  it: \<^verbatim>\<open>expand\<close> takes \<open>exp0\<close>, \<open>exp1\<close> when \<open>t1\<close> is not empty, \<open>exp0\<close> has
  more files than \<open>t0\<close>, the byte sizes of \<open>t1\<close> and \<open>exp0\<close> together are strictly
  under the expansion limit, and \<open>exp1\<close> has exactly as many files as \<open>t1\<close>; in
  every other case, so whenever the count differs or the size reaches the limit, it keeps
  \<open>t0\<close>, \<open>t1\<close> and their range.
\<close>

theorem expand_growth:
  assumes ex: "expand c = Inr c'"
    and vt0: "vt0 = levels (c_v c) ! sourceLevel c"
    and vt1: "vt1 = (if sourceLevel c + 1 < length (levels (c_v c))
                     then levels (c_v c) ! (sourceLevel c + 1) else [])"
    and inp: "expand_inputs c vt0 vt1 = Inr (t0, t1, imin1, imax1)"
    and rng: "getRange (t0 @ t1) = Some (amin, amax)"
    and e0: "exp0 = getOverlaps vt0 [] (ukey amin) (ukey amax) (sourceLevel c = 0)"
    and e1: "exp1 = (case getRange exp0 of
                       None \<Rightarrow> []
                     | Some (xmin, xmax) \<Rightarrow> getOverlaps vt1 [] (ukey xmin) (ukey xmax) False)"
  shows "(length t1 > 0 \<and> length exp0 > length t0
            \<and> tFiles_size t1 + tFiles_size exp0 < compactionExpandLimit (opts (c_s c)) (sourceLevel c)
            \<and> length exp1 = length t1
          \<longrightarrow> levels0 c' = exp0 \<and> levels1 c' = exp1)
       \<and> (\<not> (length t1 > 0 \<and> length exp0 > length t0
               \<and> tFiles_size t1 + tFiles_size exp0 < compactionExpandLimit (opts (c_s c)) (sourceLevel c)
               \<and> length exp1 = length t1)
          \<longrightarrow> levels0 c' = t0 \<and> levels1 c' = t1 \<and> c_imin c' = Some imin1 \<and> c_imax c' = Some imax1)
       \<and> (length exp1 \<noteq> length t1
            \<or> \<not> tFiles_size t1 + tFiles_size exp0 < compactionExpandLimit (opts (c_s c)) (sourceLevel c)
          \<longrightarrow> levels0 c' = t0 \<and> levels1 c' = t1)"
proof -
  let ?A = "length t1 > 0 \<and> length exp0 > length t0
            \<and> tFiles_size t1 + tFiles_size exp0 < compactionExpandLimit (opts (c_s c)) (sourceLevel c)
            \<and> length exp1 = length t1"
  have sl: "sourceLevel c < length (levels (c_v c))"
    using ex by (auto simp: expand_def Let_def split: if_splits)
  have g: "expand_grow c vt0 vt1 t0 t1 amin amax
            = (if ?A then (case getRange exp0 of
                             None \<Rightarrow> None
                           | Some (xmin, xmax) \<Rightarrow> Some (exp0, exp1, xmin, xmax))
               else None)"
    unfolding expand_grow_def Let_def e0[symmetric]
    by (cases "getRange exp0") (auto simp: e1)
  have ne: "?A \<Longrightarrow> getRange exp0 \<noteq> None"
    by (cases exp0) (auto simp: getRange_def)
  have acc: "levels0 c' = exp0 \<and> levels1 c' = exp1" if "?A"
  proof -
    have "getRange exp0 \<noteq> None" using ne that by blast
    then obtain xmin xmax where x: "getRange exp0 = Some (xmin, xmax)" by auto
    have "expand_grow c vt0 vt1 t0 t1 amin amax = Some (exp0, exp1, xmin, xmax)"
      unfolding g if_P[OF that] x by simp
    then show ?thesis
      using ex sl inp rng unfolding expand_def Let_def vt0[symmetric] vt1[symmetric]
      by (auto split: option.splits)
  qed
  have rej: "levels0 c' = t0 \<and> levels1 c' = t1 \<and> c_imin c' = Some imin1 \<and> c_imax c' = Some imax1"
    if "\<not> ?A"
  proof -
    have "expand_grow c vt0 vt1 t0 t1 amin amax = None" unfolding g by (rule if_not_P[OF that])
    then show ?thesis
      using ex sl inp rng unfolding expand_def Let_def vt0[symmetric] vt1[symmetric]
      by (auto split: option.splits)
  qed
  show ?thesis using acc rej by blast
qed

theorem expand_growth_witness:
  "expand ex_c0 = Inr (ex_c0\<lparr> gp := [], levels0 := [ex_file 11 ka kc, ex_file 12 kd kf],
                            levels1 := [ex_file 13 ka kf], c_imin := Some ka, c_imax := Some kf \<rparr>)
   \<and> expand_inputs ex_c0 [ex_file 11 ka kc, ex_file 12 kd kf] [ex_file 13 ka kf]
       = Inr ([ex_file 11 ka kc], [ex_file 13 ka kf], ka, kc)
   \<and> getRange ([ex_file 11 ka kc] @ [ex_file 13 ka kf]) = Some (ka, kf)
   \<and> tFiles_size [ex_file 13 ka kf] + tFiles_size [ex_file 11 ka kc, ex_file 12 kd kf]
       < compactionExpandLimit (opts (c_s ex_c0)) (sourceLevel ex_c0)
   \<and> levels0 (ex_c0\<lparr> gp := [], levels0 := [ex_file 11 ka kc, ex_file 12 kd kf],
                      levels1 := [ex_file 13 ka kf], c_imin := Some ka, c_imax := Some kf \<rparr>)
       = getOverlaps [ex_file 11 ka kc, ex_file 12 kd kf] [] ''a'' ''f'' False"
proof -
  let ?c' = "ex_c0\<lparr> gp := [], levels0 := [ex_file 11 ka kc, ex_file 12 kd kf],
                      levels1 := [ex_file 13 ka kf], c_imin := Some ka, c_imax := Some kf \<rparr>"
  let ?vt0 = "[ex_file 11 ka kc, ex_file 12 kd kf]" and ?vt1 = "[ex_file 13 ka kf]"
  note defs = ex_c0_def ex_v2_def ex_session_def ex_opts_def ex_file_def ka_def kc_def kd_def kf_def
    makeInternalKey_def getRange_def getOverlaps_def overlaps_def uCompare_def iCompare_def
    tFiles_size_def Let_def
  have ex: "expand ex_c0 = Inr ?c'"
    by (simp add: expand_def expand_inputs_def expand_grow_def defs)
  have vt0: "?vt0 = levels (c_v ex_c0) ! sourceLevel ex_c0" by (simp add: ex_c0_def ex_v2_def)
  have vt1: "?vt1 = (if sourceLevel ex_c0 + 1 < length (levels (c_v ex_c0))
                     then levels (c_v ex_c0) ! (sourceLevel ex_c0 + 1) else [])"
    by (simp add: ex_c0_def ex_v2_def)
  have inp: "expand_inputs ex_c0 ?vt0 ?vt1 = Inr ([ex_file 11 ka kc], [ex_file 13 ka kf], ka, kc)"
    by (simp add: expand_inputs_def defs)
  have rng: "getRange ([ex_file 11 ka kc] @ [ex_file 13 ka kf]) = Some (ka, kf)"
    by (simp add: defs)
  have e0: "?vt0 = getOverlaps ?vt0 [] (ukey ka) (ukey kf) (sourceLevel ex_c0 = 0)"
    by (simp add: defs)
  have e1: "?vt1 = (case getRange ?vt0 of
                       None \<Rightarrow> []
                     | Some (xmin, xmax) \<Rightarrow> getOverlaps ?vt1 [] (ukey xmin) (ukey xmax) False)"
    by (simp add: defs)
  have sz: "tFiles_size ?vt1 + tFiles_size ?vt0 < compactionExpandLimit (opts (c_s ex_c0)) (sourceLevel ex_c0)"
    by (simp add: defs)
  have ov: "getOverlaps ?vt0 [] ''a'' ''f'' False = ?vt0" by (simp add: defs)
  show ?thesis
    using expand_growth[OF ex vt0 vt1 inp rng e0 e1] ex inp rng sz ov by simp
qed

subsection \<open>C9: the backoff of the retry wrapper\<close>

text \<open>
  C9, as the spec states it, fails on the code. The floor and the ceiling are the
  constants \<^verbatim>\<open>backoffMin = 1 * time.Second\<close> and \<^verbatim>\<open>backoffMax = 8 * time.Second\<close>
  of \<^verbatim>\<open>compactionTransact\<close>; the configuration only switches the backoff off. And the
  durations are not exponential between them: \<^verbatim>\<open>backoff *= backoffMul\<close> multiplies by
  \<^verbatim>\<open>2 * time.Second\<close>, that is by \<open>2 * 10^9\<close>, so the product is clamped to the ceiling
  at once. A run that fails three times with a transient error and a work counter that
  stays at zero waits 1 s, 8 s, 8 s; when the counter advances at the third attempt the
  wait is the floor again and the next one the ceiling.
\<close>

theorem backoff_jumps_to_ceiling:
  "compactionTransact False ex_failing_run ex_revert ()
      [(ex_attempt, 0), (ex_attempt, 0), (ex_attempt, 0)]
     = (Retrying (), [1 * Second, 8 * Second, 8 * Second])
   \<and> compactionTransact False ex_failing_run ex_revert ()
      [(ex_attempt, 0), (ex_attempt, 0), (ex_attempt, 5), (ex_attempt, 5)]
     = (Retrying (), [1 * Second, 8 * Second, 1 * Second, 8 * Second])
   \<and> backoff_step backoffMin 0 0 = (1 * Second, 8 * Second, 0)
   \<and> wrap64 (backoffMin * backoffMul) = 2 * Second * Second"
  by (simp add: compactionTransact_def backoff_step_floor backoff_step_ceiling ex_attempt_def
      ex_failing_run_def ex_revert_def isPanic_def IsCorrupted_def)
    (simp add: backoffMin_def backoffMax_def backoffMul_def Second_def wrap64_def)

text \<open>
  C9, amended. For a job whose every run fails with a transient error (neither a panic
  nor a corruption), over rounds in which the DB is open, the error status is taken and
  the timer fires, \<^verbatim>\<open>compactionTransact\<close> is still retrying after any number of rounds.
  With the backoff disabled it never waits. Otherwise it waits once per round, every
  duration lies between the floor \<open>backoffMin\<close> and the ceiling \<open>backoffMax\<close>, and the
  duration is the floor in every round whose work counter strictly exceeds the highest
  counter recorded before (zero at the start). How the duration grows between two such
  rounds is not part of the statement.
\<close>

theorem backoff_policy:
  assumes "\<forall>e st. \<exists>x st'. runf e st = (cntOf e, Some x, st') \<and> transient x"
    and "\<forall>r \<in> set rounds. undisturbed (fst r)"
  shows "\<exists>st' ws. compactionTransact dis runf revertf st rounds = (Retrying st', ws)
     \<and> (dis \<longrightarrow> ws = [])
     \<and> (\<not> dis \<longrightarrow> length ws = length rounds
           \<and> (\<forall>w \<in> set ws. backoffMin \<le> w \<and> w \<le> backoffMax)
           \<and> (\<forall>i < length rounds.
                 cntOf (snd (rounds ! i)) > Max (insert 0 (set (map (\<lambda>r. cntOf (snd r)) (take i rounds))))
                 \<longrightarrow> ws ! i = backoffMin))"
proof (cases dis)
  case True
  show ?thesis
    using transact_loop_retries_nobackoff[OF assms(1) assms(2), of revertf backoffMin 0 "[]" st] True
    by (auto simp: compactionTransact_def)
next
  case False
  obtain st' ws where r:
    "compactionTransact_loop dis runf revertf backoffMin 0 [] st rounds = (Retrying st', [] @ ws)"
    "length ws = length rounds" "\<forall>w \<in> set ws. w = backoffMin \<or> w = backoffMax"
    "\<forall>i < length rounds.
        cntOf (snd (rounds ! i)) > Max (insert 0 (set (map (\<lambda>r. cntOf (snd r)) (take i rounds))))
        \<longrightarrow> ws ! i = backoffMin"
    using transact_loop_retries[OF assms(1) False assms(2), of backoffMin revertf 0 "[]" st] by blast
  have b: "\<forall>w \<in> set ws. backoffMin \<le> w \<and> w \<le> backoffMax"
    using r(3) backoff_bounds by auto
  show ?thesis
    using r(1,2,4) b False by (simp add: compactionTransact_def)
qed

theorem backoff_policy_witness:
  "undisturbed ex_attempt \<and> transient ErrIO
   \<and> (\<exists>st' ws. compactionTransact False ex_failing_run ex_revert ()
                  [(ex_attempt, 0), (ex_attempt, 3), (ex_attempt, 3), (ex_attempt, 5)]
                 = (Retrying st', ws)
         \<and> length ws = 4 \<and> ws ! 1 = backoffMin \<and> ws ! 3 = backoffMin
         \<and> backoffMin \<le> ws ! 2 \<and> ws ! 2 \<le> backoffMax)
   \<and> compactionTransact True ex_failing_run ex_revert ()
        [(ex_attempt, 0), (ex_attempt, 3)] = (Retrying (), [])"
proof -
  have u: "undisturbed ex_attempt" by (simp add: undisturbed_def ex_attempt_def)
  have t: "transient ErrIO" by (simp add: transient_def isPanic_def IsCorrupted_def)
  let ?f = "ex_failing_run"
  let ?R = "[(ex_attempt, 0::nat), (ex_attempt, 3), (ex_attempt, 3), (ex_attempt, 5)]"
  have f: "\<forall>e st. \<exists>x st'. ?f e st = (id e, Some x, st') \<and> transient x" using t by (simp add: ex_failing_run_def)
  have ur: "\<forall>r \<in> set ?R. undisturbed (fst r)" using u by simp
  have ur2: "\<forall>r \<in> set [(ex_attempt, 0::nat), (ex_attempt, 3)]. undisturbed (fst r)" using u by simp
  obtain st' ws where r:
    "compactionTransact False ?f ex_revert () ?R = (Retrying st', ws)"
    "length ws = length ?R" "\<forall>w \<in> set ws. backoffMin \<le> w \<and> w \<le> backoffMax"
    "\<forall>i < length ?R. id (snd (?R ! i)) > Max (insert 0 (set (map (\<lambda>r. id (snd r)) (take i ?R))))
        \<longrightarrow> ws ! i = backoffMin"
    using backoff_policy[OF f ur, of False ex_revert "()"] by auto
  have w1: "ws ! 1 = backoffMin" using r(4)[rule_format, of 1] by simp
  have "take 3 ?R = [(ex_attempt, 0), (ex_attempt, 3), (ex_attempt, 3)]" by (simp add: numeral_3_eq_3)
  then have w3: "ws ! 3 = backoffMin" using r(4)[rule_format, of 3] by simp
  have "ws ! 2 \<in> set ws" using r(2) by simp
  then have w2: "backoffMin \<le> ws ! 2 \<and> ws ! 2 \<le> backoffMax" using r(3) by blast
  have d: "compactionTransact True ?f ex_revert () [(ex_attempt, 0), (ex_attempt, 3)] = (Retrying (), [])"
    using backoff_policy[OF f ur2, of True ex_revert "()"] by auto
  show ?thesis using u t r(1,2) w1 w3 w2 d by auto
qed

end
